theory Spec2Isabelle
  imports Main "HOL-Library.Char_ord" "HOL-Library.List_Lexorder"
begin

section \<open>JavaScript values and errors\<close>

text \<open>
  The builder carries values of TypeScript type \<open>any\<close>. They are only stored, indexed,
  spread and compared with \<open>undefined\<close>; numbers are never computed on, so an integer
  payload stands for a JavaScript number.
\<close>

datatype jsval = JUndefined | JNull | JBool bool | JNum int | JStr string | JArr "jsval list"

text \<open>
  \<open>TypeError\<close> is what the runtime raises on \<open>null.length\<close>, \<open>(5).map(...)\<close> and the
  like; \<open>Error msg\<close> is \<open>new Error(msg)\<close> thrown by the code itself; \<open>DriverError\<close> is
  a failure reported by the database driver or by a user procedure; \<open>RangeError\<close> is
  the runtime's answer to calls nested deeper than its stack allows. \<open>IllTyped\<close> is
  not a raise of the runtime: it marks a place where the store holds something that the
  declared TypeScript type of the field or variable excludes, and where the functions
  below that read the store stop.
\<close>

datatype error = TypeError | Error string | DriverError string | RangeError | IllTyped

text \<open>
  An object's own properties in enumeration order, each key once. \<open>obj[key] = v\<close>: an
  own key keeps its place, a new one goes last. \<open>{...base, ...extra}\<close>: the properties
  of \<open>extra\<close> assigned in order onto a copy of \<open>base\<close>.
\<close>

fun setProperty :: "string \<Rightarrow> 'v \<Rightarrow> (string \<times> 'v) list \<Rightarrow> (string \<times> 'v) list" where
  "setProperty key v [] = [(key, v)]"
| "setProperty key v ((k, x) # rest) =
     (if k = key then (k, v) # rest else (k, x) # setProperty key v rest)"

definition spread :: "(string \<times> 'v) list \<Rightarrow> (string \<times> 'v) list \<Rightarrow> (string \<times> 'v) list" where
  "spread base extra = foldl (\<lambda>obj (k, v). setProperty k v obj) base extra"

text \<open>\<open>Array.prototype.join\<close> on an array of strings.\<close>

fun js_join :: "string \<Rightarrow> string list \<Rightarrow> string" where
  "js_join sep [] = []"
| "js_join sep [x] = x"
| "js_join sep (x # y # ys) = x @ sep @ js_join sep (y # ys)"

text \<open>
  \<open>v[i]\<close>: raises on \<open>undefined\<close> and \<open>null\<close>, is \<open>undefined\<close> on numbers and booleans
  and out of range, a one-character string on strings, the element on arrays.
\<close>

fun js_index :: "jsval \<Rightarrow> nat \<Rightarrow> error + jsval" where
  "js_index JUndefined i = Inl TypeError"
| "js_index JNull i = Inl TypeError"
| "js_index (JBool b) i = Inr JUndefined"
| "js_index (JNum n) i = Inr JUndefined"
| "js_index (JStr s) i = (if i < length s then Inr (JStr [s ! i]) else Inr JUndefined)"
| "js_index (JArr vs) i = (if i < length vs then Inr (vs ! i) else Inr JUndefined)"

section \<open>Query builder: data model\<close>

datatype boolean = AND | OR

fun booleanStr :: "boolean \<Rightarrow> string" where
  "booleanStr AND = ''AND''"
| "booleanStr OR = ''OR''"

text \<open>
  \<open>WhereClause | WhereGroup\<close>, discriminated by its \<open>type\<close> field. Every node is built
  by a builder method, which always sets \<open>boolean\<close>, and for a raw node \<open>params\<close>.
  \<open>Basic boolean column operator value\<close>, \<open>Group boolean clauses\<close>,
  \<open>Raw boolean sql params\<close>.
\<close>

datatype clause =
    Basic boolean string string jsval
  | Group boolean "clause list"
  | Raw boolean string "jsval list"

fun clauseBoolean :: "clause \<Rightarrow> boolean" where
  "clauseBoolean (Basic b c opr v) = b"
| "clauseBoolean (Group b cs) = b"
| "clauseBoolean (Raw b s ps) = b"

text \<open>
  Field reads as a template literal sees them: a field the node does not have is
  \<open>undefined\<close>, printed as the text \<open>undefined\<close>.
\<close>

fun clauseColumn :: "clause \<Rightarrow> string" where
  "clauseColumn (Basic b c opr v) = c"
| "clauseColumn (Group b cs) = ''undefined''"
| "clauseColumn (Raw b s ps) = ''undefined''"

fun clauseOperator :: "clause \<Rightarrow> string" where
  "clauseOperator (Basic b c opr v) = opr"
| "clauseOperator (Group b cs) = ''undefined''"
| "clauseOperator (Raw b s ps) = ''undefined''"

fun clauseValue :: "clause \<Rightarrow> jsval" where
  "clauseValue (Basic b c opr v) = v"
| "clauseValue (Group b cs) = JUndefined"
| "clauseValue (Raw b s ps) = JUndefined"

datatype JoinType = INNER | LEFT | RIGHT

fun joinTypeStr :: "JoinType \<Rightarrow> string" where
  "joinTypeStr INNER = ''INNER''"
| "joinTypeStr LEFT = ''LEFT''"
| "joinTypeStr RIGHT = ''RIGHT''"

datatype direction = ASC | DESC

fun directionStr :: "direction \<Rightarrow> string" where
  "directionStr ASC = ''ASC''"
| "directionStr DESC = ''DESC''"

record joinClause =
  joinType :: JoinType
  joinTable :: string
  joinOn :: string
  joinParams :: "jsval list"

text \<open>
  The fields of class \<open>QueryBuilder\<close>, the connection apart (compilation never reads it).
\<close>

record QueryBuilder =
  tableName :: string
  selectColumns :: "string list"
  whereClauses :: "clause list"
  limitValue :: "int option"
  offsetValue :: "int option"
  orderByConditions :: "(string \<times> direction) list"
  groupByColumns :: "string list"
  havingConditions :: "clause list"
  joinClauses :: "joinClause list"
  currentWhereGroup :: "clause list option"

definition newQueryBuilder :: "string \<Rightarrow> QueryBuilder" where
  "newQueryBuilder t =
     \<lparr> tableName = t, selectColumns = [''*''], whereClauses = [], limitValue = None,
       offsetValue = None, orderByConditions = [], groupByColumns = [],
       havingConditions = [], joinClauses = [], currentWhereGroup = None \<rparr>"

section \<open>Query builder: SQL compilation\<close>

text \<open>
  The operator part of a basic node and the parameters it pushes: the four branches of
  \<open>buildWhereClause\<close> on \<open>clause.operator\<close>. In the last branch the operator text is
  left as it is and the value is pushed.
\<close>

definition operatorPart :: "string \<Rightarrow> jsval \<Rightarrow> error + (string \<times> jsval list)" where
  "operatorPart opr v =
     (if opr = ''IN'' \<or> opr = ''NOT IN'' then
        (case v of
           JArr vs \<Rightarrow> Inr (opr @ '' ('' @ js_join '', '' (map (\<lambda>x. ''?'') vs) @ '')'', vs)
         | _ \<Rightarrow> Inl TypeError)
      else if opr = ''BETWEEN'' \<or> opr = ''NOT BETWEEN'' then
        (case js_index v 0 of
           Inl e \<Rightarrow> Inl e
         | Inr lo \<Rightarrow>
             (case js_index v 1 of
                Inl e \<Rightarrow> Inl e
              | Inr hi \<Rightarrow> Inr (opr @ '' ? AND ?'', [lo, hi])))
      else if opr = ''IS NULL'' \<or> opr = ''IS NOT NULL'' then Inr (opr, [])
      else Inr (opr, [v]))"

text \<open>
  \<open>buildWhereClause\<close> is the method, \<open>forEachClause\<close> its \<open>clauses.forEach\<close> from a given
  index on (the parts and the parameters pushed), \<open>clausePart\<close> the callback's body for
  one node at one index. A raise inside the callback ends the whole call.
\<close>

fun buildWhereClause :: "clause list \<Rightarrow> error + (string \<times> jsval list)"
  and forEachClause :: "nat \<Rightarrow> clause list \<Rightarrow> error + (string list \<times> jsval list)"
  and clausePart :: "nat \<Rightarrow> clause \<Rightarrow> error + (string \<times> jsval list)"
where
  "buildWhereClause clauses =
     (case forEachClause 0 clauses of
        Inl e \<Rightarrow> Inl e
      | Inr (parts, params) \<Rightarrow> Inr (js_join '' '' parts, params))"
| "forEachClause index [] = Inr ([], [])"
| "forEachClause index (c # cs) =
     (case clausePart index c of
        Inl e \<Rightarrow> Inl e
      | Inr (part, ps) \<Rightarrow>
          (case forEachClause (Suc index) cs of
             Inl e \<Rightarrow> Inl e
           | Inr (parts, qs) \<Rightarrow> Inr (part # parts, ps @ qs)))"
| "clausePart index (Basic b column opr v) =
     (case operatorPart opr v of
        Inl e \<Rightarrow> Inl e
      | Inr (opPart, ps) \<Rightarrow>
          Inr ((if index = 0 then [] else booleanStr b @ '' '') @ column @ '' '' @ opPart, ps))"
| "clausePart index (Group b clauses) =
     (case buildWhereClause clauses of
        Inl e \<Rightarrow> Inl e
      | Inr (nestedSql, nestedParams) \<Rightarrow>
          Inr ((if index = 0 then [] else booleanStr b @ '' '') @ ''('' @ nestedSql @ '')'',
               nestedParams))"
| "clausePart index (Raw b sql ps) =
     Inr ((if index = 0 then [] else booleanStr b @ '' '') @ ''('' @ sql @ '')'', ps)"

text \<open>
  \<open>buildSql\<close> as a method call on the mutable builder: the value it returns, and the
  builder as the call leaves it. The body assigns to no field of \<open>this\<close>; every \<open>push\<close>
  goes to the local \<open>params\<close> or \<open>havingParts\<close>. What the call does to the arrays and
  objects behind the builder is not visible here: for that, \<open>buildSqlStore\<close> further on
  runs the same body on a store.
\<close>

definition buildSql :: "QueryBuilder \<Rightarrow> (error + (string \<times> jsval list)) \<times> QueryBuilder" where
  "buildSql this =
     (let sql0 = ''SELECT '' @ js_join '', '' (selectColumns this) @ '' FROM '' @ tableName this;
          sql1 = sql0 @ concat (map (\<lambda>j. '' '' @ joinTypeStr (joinType j) @ '' JOIN '' @
                                        joinTable j @ '' ON '' @ joinOn j) (joinClauses this));
          params1 = concat (map joinParams (joinClauses this))
      in case (if length (whereClauses this) > 0
               then (case buildWhereClause (whereClauses this) of
                       Inl e \<Rightarrow> Inl e
                     | Inr (whereSql, whereParams) \<Rightarrow>
                         Inr (sql1 @ '' WHERE '' @ whereSql, params1 @ whereParams))
               else Inr (sql1, params1)) of
           Inl e \<Rightarrow> (Inl e, this)
         | Inr (sql2, params2) \<Rightarrow>
            (let sql3 = (if length (groupByColumns this) > 0
                         then sql2 @ '' GROUP BY '' @ js_join '', '' (groupByColumns this)
                         else sql2);
                 params4 = (if length (havingConditions this) > 0
                            then params2 @ map clauseValue (havingConditions this)
                            else params2);
                 sql4 = (if length (havingConditions this) > 0
                         then sql3 @ '' HAVING '' @
                              js_join '' AND ''
                                (map (\<lambda>h. clauseColumn h @ '' '' @ clauseOperator h @ '' ?'')
                                     (havingConditions this))
                         else sql3);
                 sql5 = (if length (orderByConditions this) > 0
                         then sql4 @ '' ORDER BY '' @
                              js_join '', ''
                                (map (\<lambda>(c, d). c @ '' '' @ directionStr d) (orderByConditions this))
                         else sql4);
                 sql6 = (case limitValue this of None \<Rightarrow> sql5 | Some n \<Rightarrow> sql5 @ '' LIMIT ?'');
                 params6 = (case limitValue this of None \<Rightarrow> params4 | Some n \<Rightarrow> params4 @ [JNum n]);
                 sql7 = (case offsetValue this of None \<Rightarrow> sql6 | Some n \<Rightarrow> sql6 @ '' OFFSET ?'');
                 params7 = (case offsetValue this of None \<Rightarrow> params6 | Some n \<Rightarrow> params6 @ [JNum n])
             in (Inr (sql7, params7), this)))"

section \<open>Query builder: chained methods\<close>

text \<open>
  Each method mutates the builder and returns it; here it returns the builder after the
  call. A method that can raise returns \<open>error + QueryBuilder\<close>, and \<open>thenDo\<close> chains
  such calls, stopping at the first raise.
\<close>

definition thenDo :: "error + 'a \<Rightarrow> ('a \<Rightarrow> error + 'b) \<Rightarrow> error + 'b" where
  "thenDo r f = (case r of Inl e \<Rightarrow> Inl e | Inr x \<Rightarrow> f x)"

definition select :: "string list \<Rightarrow> QueryBuilder \<Rightarrow> QueryBuilder" where
  "select columns this = this\<lparr>selectColumns := (if length columns > 0 then columns else [''*''])\<rparr>"

definition addWhere :: "clause \<Rightarrow> QueryBuilder \<Rightarrow> QueryBuilder" where
  "addWhere c this =
     (case currentWhereGroup this of
        Some g \<Rightarrow> this\<lparr>currentWhereGroup := Some (g @ [c])\<rparr>
      | None \<Rightarrow> this\<lparr>whereClauses := whereClauses this @ [c]\<rparr>)"

text \<open>
  The first argument of \<open>where\<close>, \<open>orWhere\<close> and the join methods: a column name or a
  callback. A callback receives the nested builder and mutates it, or raises; it is a
  function from the nested builder to the nested builder after the call.
\<close>

datatype columnOrCallback =
    Column string
  | Callback "QueryBuilder \<Rightarrow> error + QueryBuilder"

text \<open>
  \<open>where\<close> and \<open>orWhere\<close> have the same body up to the keyword they store; \<open>whereWith\<close>
  is that body. The operator is absent (\<open>None\<close>) or a string; the value is absent when it
  is \<open>JUndefined\<close>.
\<close>

fun whereWith ::
  "boolean \<Rightarrow> columnOrCallback \<Rightarrow> string option \<Rightarrow> jsval \<Rightarrow> QueryBuilder \<Rightarrow> error + QueryBuilder"
where
  "whereWith b (Callback callback) operator val this =
     (case callback ((newQueryBuilder (tableName this))\<lparr>currentWhereGroup := Some []\<rparr>) of
        Inl e \<Rightarrow> Inl e
      | Inr nestedBuilder \<Rightarrow>
          (case currentWhereGroup nestedBuilder of
             None \<Rightarrow> Inl TypeError
           | Some g \<Rightarrow> Inr (if length g > 0 then addWhere (Group b g) this else this)))"
| "whereWith b (Column column) operator val this =
     (case operator of
        None \<Rightarrow> Inr this
      | Some opr \<Rightarrow>
          (if val \<noteq> JUndefined then Inr (addWhere (Basic b column opr val) this) else Inr this))"

definition where' ::
  "columnOrCallback \<Rightarrow> string option \<Rightarrow> jsval \<Rightarrow> QueryBuilder \<Rightarrow> error + QueryBuilder" where
  "where' = whereWith AND"

definition orWhere ::
  "columnOrCallback \<Rightarrow> string option \<Rightarrow> jsval \<Rightarrow> QueryBuilder \<Rightarrow> error + QueryBuilder" where
  "orWhere = whereWith OR"

definition whereIn :: "string \<Rightarrow> jsval list \<Rightarrow> QueryBuilder \<Rightarrow> QueryBuilder" where
  "whereIn column vals = addWhere (Basic AND column ''IN'' (JArr vals))"

definition orWhereIn :: "string \<Rightarrow> jsval list \<Rightarrow> QueryBuilder \<Rightarrow> QueryBuilder" where
  "orWhereIn column vals = addWhere (Basic OR column ''IN'' (JArr vals))"

definition whereNotIn :: "string \<Rightarrow> jsval list \<Rightarrow> QueryBuilder \<Rightarrow> QueryBuilder" where
  "whereNotIn column vals = addWhere (Basic AND column ''NOT IN'' (JArr vals))"

definition orWhereNotIn :: "string \<Rightarrow> jsval list \<Rightarrow> QueryBuilder \<Rightarrow> QueryBuilder" where
  "orWhereNotIn column vals = addWhere (Basic OR column ''NOT IN'' (JArr vals))"

definition whereNull :: "string \<Rightarrow> QueryBuilder \<Rightarrow> QueryBuilder" where
  "whereNull column = addWhere (Basic AND column ''IS NULL'' JNull)"

definition orWhereNull :: "string \<Rightarrow> QueryBuilder \<Rightarrow> QueryBuilder" where
  "orWhereNull column = addWhere (Basic OR column ''IS NULL'' JNull)"

definition whereNotNull :: "string \<Rightarrow> QueryBuilder \<Rightarrow> QueryBuilder" where
  "whereNotNull column = addWhere (Basic AND column ''IS NOT NULL'' JNull)"

definition orWhereNotNull :: "string \<Rightarrow> QueryBuilder \<Rightarrow> QueryBuilder" where
  "orWhereNotNull column = addWhere (Basic OR column ''IS NOT NULL'' JNull)"

definition whereBetween :: "string \<Rightarrow> jsval \<Rightarrow> jsval \<Rightarrow> QueryBuilder \<Rightarrow> QueryBuilder" where
  "whereBetween column lo hi = addWhere (Basic AND column ''BETWEEN'' (JArr [lo, hi]))"

definition orWhereBetween :: "string \<Rightarrow> jsval \<Rightarrow> jsval \<Rightarrow> QueryBuilder \<Rightarrow> QueryBuilder" where
  "orWhereBetween column lo hi = addWhere (Basic OR column ''BETWEEN'' (JArr [lo, hi]))"

definition whereNotBetween :: "string \<Rightarrow> jsval \<Rightarrow> jsval \<Rightarrow> QueryBuilder \<Rightarrow> QueryBuilder" where
  "whereNotBetween column lo hi = addWhere (Basic AND column ''NOT BETWEEN'' (JArr [lo, hi]))"

definition orWhereNotBetween :: "string \<Rightarrow> jsval \<Rightarrow> jsval \<Rightarrow> QueryBuilder \<Rightarrow> QueryBuilder" where
  "orWhereNotBetween column lo hi = addWhere (Basic OR column ''NOT BETWEEN'' (JArr [lo, hi]))"

definition whereRaw :: "string \<Rightarrow> jsval list \<Rightarrow> QueryBuilder \<Rightarrow> QueryBuilder" where
  "whereRaw sql params = addWhere (Raw AND sql params)"

definition orWhereRaw :: "string \<Rightarrow> jsval list \<Rightarrow> QueryBuilder \<Rightarrow> QueryBuilder" where
  "orWhereRaw sql params = addWhere (Raw OR sql params)"

text \<open>
  \<open>addJoin\<close>: a string condition is stored with the given parameters; a callback fills a
  builder scoped to the joined table, whose group is compiled by \<open>buildWhereClause\<close>.
\<close>

fun addJoin ::
  "JoinType \<Rightarrow> string \<Rightarrow> columnOrCallback \<Rightarrow> jsval list \<Rightarrow> QueryBuilder \<Rightarrow> error + QueryBuilder"
where
  "addJoin ty table (Column onCondition) onParams this =
     Inr (this\<lparr>joinClauses := joinClauses this @
            [\<lparr>joinType = ty, joinTable = table, joinOn = onCondition, joinParams = onParams\<rparr>]\<rparr>)"
| "addJoin ty table (Callback onCondition) onParams this =
     (case onCondition ((newQueryBuilder table)\<lparr>currentWhereGroup := Some []\<rparr>) of
        Inl e \<Rightarrow> Inl e
      | Inr joinBuilder \<Rightarrow>
          (case currentWhereGroup joinBuilder of
             None \<Rightarrow> Inl TypeError
           | Some g \<Rightarrow>
               (case buildWhereClause g of
                  Inl e \<Rightarrow> Inl e
                | Inr (innerSql, innerParams) \<Rightarrow>
                    Inr (this\<lparr>joinClauses := joinClauses this @
                           [\<lparr>joinType = ty, joinTable = table, joinOn = innerSql,
                             joinParams = innerParams\<rparr>]\<rparr>))))"

text \<open>
  \<open>innerJoin\<close>, \<open>leftJoin\<close> and \<open>rightJoin\<close> share one body up to the join type. A missing
  or empty operator or second column is falsy and raises.
\<close>

fun joinWith ::
  "JoinType \<Rightarrow> string \<Rightarrow> columnOrCallback \<Rightarrow> string option \<Rightarrow> string option \<Rightarrow> QueryBuilder
     \<Rightarrow> error + QueryBuilder"
where
  "joinWith ty table (Callback f) operator secondColumn this = addJoin ty table (Callback f) [] this"
| "joinWith ty table (Column firstColumn) operator secondColumn this =
     (case operator of
        None \<Rightarrow> Inl (Error ''For string-based join, operator and secondColumn are required.'')
      | Some opr \<Rightarrow>
          (case secondColumn of
             None \<Rightarrow> Inl (Error ''For string-based join, operator and secondColumn are required.'')
           | Some second \<Rightarrow>
               (if opr = [] \<or> second = []
                then Inl (Error ''For string-based join, operator and secondColumn are required.'')
                else addJoin ty table (Column (firstColumn @ '' '' @ opr @ '' '' @ second)) [] this)))"

definition innerJoin ::
  "string \<Rightarrow> columnOrCallback \<Rightarrow> string option \<Rightarrow> string option \<Rightarrow> QueryBuilder \<Rightarrow> error + QueryBuilder"
where "innerJoin = joinWith INNER"

definition leftJoin ::
  "string \<Rightarrow> columnOrCallback \<Rightarrow> string option \<Rightarrow> string option \<Rightarrow> QueryBuilder \<Rightarrow> error + QueryBuilder"
where "leftJoin = joinWith LEFT"

definition rightJoin ::
  "string \<Rightarrow> columnOrCallback \<Rightarrow> string option \<Rightarrow> string option \<Rightarrow> QueryBuilder \<Rightarrow> error + QueryBuilder"
where "rightJoin = joinWith RIGHT"

definition limit :: "int \<Rightarrow> QueryBuilder \<Rightarrow> QueryBuilder" where
  "limit count this = this\<lparr>limitValue := Some count\<rparr>"

definition offset :: "int \<Rightarrow> QueryBuilder \<Rightarrow> QueryBuilder" where
  "offset count this = this\<lparr>offsetValue := Some count\<rparr>"

definition orderBy :: "string \<Rightarrow> direction \<Rightarrow> QueryBuilder \<Rightarrow> QueryBuilder" where
  "orderBy column dir this = this\<lparr>orderByConditions := orderByConditions this @ [(column, dir)]\<rparr>"

definition groupBy :: "string list \<Rightarrow> QueryBuilder \<Rightarrow> QueryBuilder" where
  "groupBy columns this = this\<lparr>groupByColumns := columns\<rparr>"

definition having :: "string \<Rightarrow> string \<Rightarrow> jsval \<Rightarrow> QueryBuilder \<Rightarrow> QueryBuilder" where
  "having column opr val this =
     this\<lparr>havingConditions := havingConditions this @ [Basic AND column opr val]\<rparr>"

text \<open>The number of \<open>?\<close> placeholders in an SQL text.\<close>

definition placeholders :: "string \<Rightarrow> nat" where
  "placeholders sql = length (filter (\<lambda>c. c = CHR ''?'') sql)"

section \<open>Migration runner\<close>

text \<open>
  The database is the ledger table \<open>_fastorm_migrations\<close> (its \<open>name\<close> column, in
  insertion order) and the rest, \<open>userdb\<close>, on which the migration procedures act; a
  procedure is taken not to touch the ledger table. \<open>events\<close> records, in order, the calls
  the runner makes: a migration's \<open>up\<close> or \<open>down\<close>, the ledger \<open>INSERT\<close> and \<open>DELETE\<close>
  statements it issues, and the warning for a missing definition.
\<close>

datatype event =
    RunUp string
  | InsertRow string
  | RunDown string
  | DeleteRow string
  | WarnMissing string

record 's world =
  ledger :: "string list"
  userdb :: 's
  events :: "event list"

text \<open>
  A procedure of a migration module, called with the connection: it changes the database
  and resolves (\<open>None\<close>) or rejects (\<open>Some e\<close>), possibly after part of its work.
\<close>

type_synonym 's procedure = "'s \<Rightarrow> error option \<times> 's"

record 's Migration =
  name :: string
  up :: "'s procedure"
  down :: "'s procedure"

definition endsWith :: "string \<Rightarrow> string \<Rightarrow> bool" where
  "endsWith s suffix =
     (length suffix \<le> length s \<and> drop (length s - length suffix) s = suffix)"

text \<open>
  \<open>path.parse(file).name\<close> for a file name that passed the filter, so that it ends in
  \<open>.ts\<close> or \<open>.js\<close>: the name without these three characters, except that a name which
  is only the extension (the dot comes first) has no extension to strip.
\<close>

definition parseName :: "string \<Rightarrow> string" where
  "parseName file = (if length file = 3 then file else take (length file - 3) file)"

text \<open>
  \<open>loadMigrations\<close>: \<open>dir\<close> is what \<open>fs.readdir\<close> resolves to (a raise or the names in
  the directory), \<open>require\<close> gives the \<open>up\<close> and \<open>down\<close> a file exports, or \<open>None\<close> when
  loading it raises (the file is then reported and left out). \<open>sort\<close> is the default
  \<open>Array.prototype.sort\<close>: ascending by code unit, a proper prefix first. File names
  are taken to be ASCII, where a code unit is a character.
\<close>

fun loadEach :: "(string \<Rightarrow> ('s procedure \<times> 's procedure) option) \<Rightarrow> string list \<Rightarrow> 's Migration list"
where
  "loadEach require [] = []"
| "loadEach require (file # files) =
     (case require file of
        None \<Rightarrow> loadEach require files
      | Some (u, d) \<Rightarrow> \<lparr>name = parseName file, up = u, down = d\<rparr> # loadEach require files)"

definition loadMigrations ::
  "(error + string list) \<Rightarrow> (string \<Rightarrow> ('s procedure \<times> 's procedure) option)
     \<Rightarrow> error + 's Migration list"
where
  "loadMigrations dir require =
     (case dir of
        Inl e \<Rightarrow> Inl e
      | Inr files \<Rightarrow>
          Inr (loadEach require
                 (sort (filter (\<lambda>file. endsWith file ''.ts'' \<or> endsWith file ''.js'') files))))"

text \<open>
  \<open>CREATE TABLE IF NOT EXISTS\<close>: an absent ledger table and an empty one are the same
  \<open>ledger\<close> here, so the statement changes nothing.
\<close>

definition ensureMigrationsTable :: "'s world \<Rightarrow> 's world" where
  "ensureMigrationsTable w = w"

text \<open>
  \<open>SELECT name ... ORDER BY name ASC\<close>: the database is taken to order names as the
  runtime compares strings.
\<close>

definition getRanMigrations :: "'s world \<Rightarrow> string list" where
  "getRanMigrations w = sort (ledger w)"


definition deleteLedgerRow :: "string \<Rightarrow> 's world \<Rightarrow> 's world" where
  "deleteLedgerRow n w = w\<lparr>ledger := filter (\<lambda>x. x \<noteq> n) (ledger w)\<rparr>"

definition logEvent :: "event \<Rightarrow> 's world \<Rightarrow> 's world" where
  "logEvent ev w = w\<lparr>events := events w @ [ev]\<rparr>"



text \<open>
  \<open>xs.slice(0, end)\<close> for an integer \<open>end\<close>: a negative end counts from the back.
\<close>

definition slice0 :: "'a list \<Rightarrow> int \<Rightarrow> 'a list" where
  "slice0 xs e = (if e < 0 then take (nat (int (length xs) + e)) xs else take (nat e) xs)"

text \<open>
  \<open>new Map(availableMigrations.map((m) => [m.name, m]))\<close> and its \<open>get\<close>: of two
  entries with one key the later one stays.
\<close>

definition availableMigrationsMap :: "'s Migration list \<Rightarrow> string \<Rightarrow> 's Migration option" where
  "availableMigrationsMap ms = map_of (rev (map (\<lambda>m. (name m, m)) ms))"

fun downLoop ::
  "(string \<Rightarrow> 's Migration option) \<Rightarrow> string list \<Rightarrow> 's world \<Rightarrow> error option \<times> 's world"
where
  "downLoop lookup [] w = (None, w)"
| "downLoop lookup (migrationName # rest) w =
     (case lookup migrationName of
        Some migration \<Rightarrow>
          (let w1 = logEvent (RunDown (name migration)) w in
           case down migration (userdb w1) of
             (Some e, s) \<Rightarrow> (Some e, w1\<lparr>userdb := s\<rparr>)
           | (None, s) \<Rightarrow>
               downLoop lookup rest
                 (deleteLedgerRow (name migration)
                    (logEvent (DeleteRow (name migration)) (w1\<lparr>userdb := s\<rparr>))))
      | None \<Rightarrow> downLoop lookup rest (logEvent (WarnMissing migrationName) w))"

definition migrationsToRollback :: "string list \<Rightarrow> int \<Rightarrow> string list" where
  "migrationsToRollback ranMigrations steps = slice0 (rev ranMigrations) steps"

definition migrateDown ::
  "int \<Rightarrow> (error + string list) \<Rightarrow> (string \<Rightarrow> ('s procedure \<times> 's procedure) option) \<Rightarrow> 's world
     \<Rightarrow> error option \<times> 's world"
where
  "migrateDown steps dir require w =
     (let w0 = ensureMigrationsTable w;
          ranMigrations = getRanMigrations w0
      in if length ranMigrations = 0 then (None, w0)
         else
           (case loadMigrations dir require of
              Inl e \<Rightarrow> (Some e, w0)
            | Inr availableMigrations \<Rightarrow>
                downLoop (availableMigrationsMap availableMigrations)
                  (migrationsToRollback ranMigrations steps) w0))"

text \<open>The events a call added to the log.\<close>

definition newEvents :: "'s world \<Rightarrow> 's world \<Rightarrow> event list" where
  "newEvents w w' = drop (length (events w)) (events w')"

section \<open>Connection\<close>

text \<open>
  A \<open>PoolConnection\<close> handle is a number. The constructor's argument is a pool
  configuration or an open handle (an object with \<open>execute\<close>).
\<close>

type_synonym PoolConnection = nat

type_synonym PoolOptions = "(string \<times> jsval) list"

datatype configOrConnection = Config PoolOptions | Handle PoolConnection

record Connection =
  pool :: "PoolOptions option"
  transactionalConnection :: "PoolConnection option"
  isTransactionConnection :: bool

definition newConnection :: "configOrConnection \<Rightarrow> Connection" where
  "newConnection arg =
     (case arg of
        Handle h \<Rightarrow>
          \<lparr>pool = None, transactionalConnection = Some h, isTransactionConnection = True\<rparr>
      | Config cfg \<Rightarrow>
          \<lparr>pool = Some (spread [(''waitForConnections'', JBool True),
                                (''connectionLimit'', JNum 10), (''queueLimit'', JNum 0)] cfg),
           transactionalConnection = None, isTransactionConnection = False\<rparr>)"

text \<open>
  What the driver does is given from outside: \<open>getConnection\<close> is what the pool's
  \<open>getConnection()\<close> resolves to, \<open>execute\<close> what a handle's \<open>execute(sql, params)\<close>
  resolves to. The calls made on the driver are logged in order.
\<close>

datatype poolEvent =
    CheckedOut PoolConnection
  | Executed PoolConnection string "jsval list"
  | Released PoolConnection

record 'r driver =
  getConnection :: "error + PoolConnection"
  execute :: "PoolConnection \<Rightarrow> string \<Rightarrow> jsval list \<Rightarrow> error + 'r"

definition getActiveConnection ::
  "Connection \<Rightarrow> 'r driver \<Rightarrow> (error + PoolConnection) \<times> poolEvent list" where
  "getActiveConnection this drv =
     (if isTransactionConnection this \<and> transactionalConnection this \<noteq> None
      then (Inr (the (transactionalConnection this)), [])
      else if pool this \<noteq> None
      then (case getConnection drv of
              Inl e \<Rightarrow> (Inl e, [])
            | Inr h \<Rightarrow> (Inr h, [CheckedOut h]))
      else (Inl (Error ''No active database connection or pool available.''), []))"

text \<open>\<open>releaseConnection\<close>, given a handle or \<open>undefined\<close>: the driver calls it makes.\<close>

definition releaseConnection :: "Connection \<Rightarrow> PoolConnection option \<Rightarrow> poolEvent list" where
  "releaseConnection this connection =
     (case connection of
        Some h \<Rightarrow> (if \<not> isTransactionConnection this then [Released h] else [])
      | None \<Rightarrow> [])"

text \<open>
  \<open>query\<close>: the \<open>try\<close> block, then the \<open>finally\<close> block whatever the \<open>try\<close> block did,
  with \<open>connection\<close> still \<open>undefined\<close> when the checkout raised.
\<close>

definition query ::
  "Connection \<Rightarrow> 'r driver \<Rightarrow> string \<Rightarrow> jsval list \<Rightarrow> (error + 'r) \<times> poolEvent list" where
  "query this drv sql params =
     (case getActiveConnection this drv of
        (Inl e, evs) \<Rightarrow>
          (Inl e, evs @ (if \<not> isTransactionConnection this
                         then releaseConnection this None else []))
      | (Inr connection, evs) \<Rightarrow>
          (execute drv connection sql params,
           evs @ [Executed connection sql params] @
             (if \<not> isTransactionConnection this
              then releaseConnection this (Some connection) else [])))"

definition end' :: "Connection \<Rightarrow> Connection" where
  "end' this = this\<lparr>pool := None\<rparr>"

definition checkouts :: "poolEvent list \<Rightarrow> PoolConnection list" where
  "checkouts evs = concat (map (\<lambda>ev. case ev of CheckedOut h \<Rightarrow> [h] | _ \<Rightarrow> []) evs)"

definition releases :: "poolEvent list \<Rightarrow> PoolConnection list" where
  "releases evs = concat (map (\<lambda>ev. case ev of Released h \<Rightarrow> [h] | _ \<Rightarrow> []) evs)"

section \<open>The store: arrays and objects by reference\<close>

text \<open>
  Where one array or object can be reached along two paths, a write along one path is
  seen along the other. For the calls whose claims depend on that, values are taken as
  the runtime holds them: a scalar, or a reference to an array or an object in a store.
  An address is an index into the store and a new array or object goes at its end.
\<close>

datatype hval = HUndefined | HNull | HBool bool | HNum int | HStr string | HRef nat

datatype cell = Arr "hval list" | Obj "(string \<times> hval) list"

type_synonym store = "cell list"

definition cellAt :: "store \<Rightarrow> nat \<Rightarrow> cell option" where
  "cellAt h a = (if a < length h then Some (h ! a) else None)"

definition alloc :: "cell \<Rightarrow> store \<Rightarrow> nat \<times> store" where
  "alloc c h = (length h, h @ [c])"

text \<open>\<open>xs.push(...vs)\<close> for \<open>xs\<close> held at address \<open>a\<close>.\<close>

definition push :: "nat \<Rightarrow> hval list \<Rightarrow> store \<Rightarrow> error + store" where
  "push a vs h =
     (case cellAt h a of
        Some (Arr xs) \<Rightarrow> Inr (h[a := Arr (xs @ vs)])
      | Some (Obj fs) \<Rightarrow> Inl TypeError
      | None \<Rightarrow> Inl IllTyped)"


text \<open>\<open>obj.key\<close> on the properties of an object: a missing property is \<open>undefined\<close>.\<close>

definition field :: "(string \<times> hval) list \<Rightarrow> string \<Rightarrow> hval" where
  "field fs key = (case map_of fs key of Some v \<Rightarrow> v | None \<Rightarrow> HUndefined)"

text \<open>
  A value as it is outside the store, every array read out: what a driver sends for a
  parameter, and what the builder's parameters are compared by. Arrays nested deeper
  than \<open>depth\<close> are not followed, and an object has no such value.
\<close>

fun readValue :: "nat \<Rightarrow> store \<Rightarrow> hval \<Rightarrow> error + jsval"
  and readValues :: "nat \<Rightarrow> store \<Rightarrow> hval list \<Rightarrow> error + jsval list"
where
  "readValue depth h HUndefined = Inr JUndefined"
| "readValue depth h HNull = Inr JNull"
| "readValue depth h (HBool b) = Inr (JBool b)"
| "readValue depth h (HNum n) = Inr (JNum n)"
| "readValue depth h (HStr s) = Inr (JStr s)"
| "readValue 0 h (HRef a) = Inl RangeError"
| "readValue (Suc depth) h (HRef a) =
     (case cellAt h a of
        Some (Arr vs) \<Rightarrow>
          (case readValues depth h vs of Inl e \<Rightarrow> Inl e | Inr js \<Rightarrow> Inr (JArr js))
      | _ \<Rightarrow> Inl IllTyped)"
| "readValues depth h [] = Inr []"
| "readValues depth h (v # vs) =
     (case readValue depth h v of
        Inl e \<Rightarrow> Inl e
      | Inr j \<Rightarrow> (case readValues depth h vs of Inl e \<Rightarrow> Inl e | Inr js \<Rightarrow> Inr (j # js)))"

section \<open>Query builder on the store\<close>

text \<open>
  The builder, its arrays and the nodes of its predicate tree as objects and arrays in
  the store, and \<open>buildWhereClause\<close> and \<open>buildSql\<close> as they read and write it: every
  \<open>const xs = []\<close> that is pushed to later allocates an array, every \<open>push\<close> writes to the
  array its variable holds, every \<open>this.f\<close> reads the builder object as the store has it
  at that moment. The functions return what the call returns (the parameters as the
  address of the array) and the store afterwards.

  First the reads. A field or variable is read at its declared type: an object, an
  array, a string, or with \<open>asText\<close> a string or \<open>undefined\<close> as a template literal prints
  it; anything else there is \<open>IllTyped\<close>.
\<close>

definition getObj :: "store \<Rightarrow> hval \<Rightarrow> error + (string \<times> hval) list" where
  "getObj h v =
     (case v of
        HRef a \<Rightarrow> (case cellAt h a of Some (Obj fs) \<Rightarrow> Inr fs | _ \<Rightarrow> Inl IllTyped)
      | _ \<Rightarrow> Inl IllTyped)"

definition getArr :: "store \<Rightarrow> hval \<Rightarrow> error + hval list" where
  "getArr h v =
     (case v of
        HRef a \<Rightarrow> (case cellAt h a of Some (Arr xs) \<Rightarrow> Inr xs | _ \<Rightarrow> Inl IllTyped)
      | _ \<Rightarrow> Inl IllTyped)"

definition asString :: "hval \<Rightarrow> error + string" where
  "asString v = (case v of HStr s \<Rightarrow> Inr s | _ \<Rightarrow> Inl IllTyped)"

definition asText :: "hval \<Rightarrow> error + string" where
  "asText v = (case v of HStr s \<Rightarrow> Inr s | HUndefined \<Rightarrow> Inr ''undefined'' | _ \<Rightarrow> Inl IllTyped)"

fun asStrings :: "hval list \<Rightarrow> error + string list" where
  "asStrings [] = Inr []"
| "asStrings (v # vs) =
     (case asString v of
        Inl e \<Rightarrow> Inl e
      | Inr s \<Rightarrow> (case asStrings vs of Inl e \<Rightarrow> Inl e | Inr ss \<Rightarrow> Inr (s # ss)))"

definition getStrings :: "store \<Rightarrow> hval \<Rightarrow> error + string list" where
  "getStrings h v = thenDo (getArr h v) asStrings"

definition thisField :: "store \<Rightarrow> hval \<Rightarrow> string \<Rightarrow> error + hval" where
  "thisField h this key = thenDo (getObj h this) (\<lambda>fs. Inr (field fs key))"

text \<open>
  \<open>v.map(...)\<close> followed by \<open>...v\<close> for a value of type \<open>any\<close>: the elements of an array,
  a raise on everything else. \<open>v[i]\<close> as \<open>js_index\<close> has it, the element of an array or
  \<open>undefined\<close>; a value that is an object and not an array is left out (\<open>IllTyped\<close>).
  \<open>...(v || [])\<close> for a value of type \<open>any[] | undefined\<close>.
\<close>

definition mapArg :: "store \<Rightarrow> hval \<Rightarrow> error + hval list" where
  "mapArg h v =
     (case v of
        HRef a \<Rightarrow>
          (case cellAt h a of
             Some (Arr xs) \<Rightarrow> Inr xs
           | Some (Obj fs) \<Rightarrow> Inl TypeError
           | None \<Rightarrow> Inl IllTyped)
      | _ \<Rightarrow> Inl TypeError)"

definition indexStore :: "store \<Rightarrow> hval \<Rightarrow> nat \<Rightarrow> error + hval" where
  "indexStore h v i =
     (case v of
        HUndefined \<Rightarrow> Inl TypeError
      | HNull \<Rightarrow> Inl TypeError
      | HBool b \<Rightarrow> Inr HUndefined
      | HNum n \<Rightarrow> Inr HUndefined
      | HStr s \<Rightarrow> (if i < length s then Inr (HStr [s ! i]) else Inr HUndefined)
      | HRef a \<Rightarrow>
          (case cellAt h a of
             Some (Arr xs) \<Rightarrow> (if i < length xs then Inr (xs ! i) else Inr HUndefined)
           | _ \<Rightarrow> Inl IllTyped))"

definition spreadOrEmpty :: "store \<Rightarrow> hval \<Rightarrow> error + hval list" where
  "spreadOrEmpty h v =
     (case v of
        HUndefined \<Rightarrow> Inr []
      | HRef a \<Rightarrow> (case cellAt h a of Some (Arr xs) \<Rightarrow> Inr xs | _ \<Rightarrow> Inl IllTyped)
      | _ \<Rightarrow> Inl IllTyped)"

text \<open>
  Sequencing of steps that read and write the store: \<open>thenRun\<close> goes on with the value
  and the store of a step that did not raise, \<open>reading\<close> is a step that only reads,
  \<open>pushing\<close> the step \<open>xs.push(...vs)\<close>.
\<close>

definition thenRun ::
  "(error + 'a) \<times> store \<Rightarrow> ('a \<Rightarrow> store \<Rightarrow> (error + 'b) \<times> store) \<Rightarrow> (error + 'b) \<times> store" where
  "thenRun m f = (case m of (Inl e, h) \<Rightarrow> (Inl e, h) | (Inr x, h) \<Rightarrow> f x h)"

definition reading :: "error + 'a \<Rightarrow> store \<Rightarrow> (error + 'a) \<times> store" where
  "reading r h = (r, h)"

definition pushing :: "nat \<Rightarrow> hval list \<Rightarrow> store \<Rightarrow> (error + unit) \<times> store" where
  "pushing a vs h = (case push a vs h of Inl e \<Rightarrow> (Inl e, h) | Inr h' \<Rightarrow> (Inr (), h'))"

text \<open>
  The operator part of a basic node and the values it pushes, read from the store: the
  four branches on \<open>clause.operator\<close>.
\<close>

definition operatorPartStore :: "store \<Rightarrow> hval \<Rightarrow> hval \<Rightarrow> error + (string \<times> hval list)" where
  "operatorPartStore h opr v =
     (if opr = HStr ''IN'' \<or> opr = HStr ''NOT IN'' then
        thenDo (asText opr) (\<lambda>oprText.
        thenDo (mapArg h v) (\<lambda>xs.
          Inr (oprText @ '' ('' @ js_join '', '' (map (\<lambda>x. ''?'') xs) @ '')'', xs)))
      else if opr = HStr ''BETWEEN'' \<or> opr = HStr ''NOT BETWEEN'' then
        thenDo (asText opr) (\<lambda>oprText.
        thenDo (indexStore h v 0) (\<lambda>lo.
        thenDo (indexStore h v 1) (\<lambda>hi.
          Inr (oprText @ '' ? AND ?'', [lo, hi]))))
      else if opr = HStr ''IS NULL'' \<or> opr = HStr ''IS NOT NULL'' then
        thenDo (asText opr) (\<lambda>oprText. Inr (oprText, []))
      else thenDo (asText opr) (\<lambda>oprText. Inr (oprText, [v])))"

text \<open>
  The callback of \<open>clauses.forEach\<close>, in pieces: the node and its keyword prefix, then
  the branch for a basic node, the pushes after the nested call for a group, and the
  branch for a raw node. In each branch the parameters are pushed before the part.
\<close>

definition clauseHeader :: "store \<Rightarrow> nat \<Rightarrow> hval \<Rightarrow> error + ((string \<times> hval) list \<times> string)" where
  "clauseHeader h index clause =
     thenDo (getObj h clause) (\<lambda>fs.
       if index = 0 then Inr (fs, [])
       else thenDo (asText (field fs ''boolean'')) (\<lambda>b. Inr (fs, b @ '' '')))"

definition basicStore ::
  "(string \<times> hval) list \<Rightarrow> string \<Rightarrow> nat \<Rightarrow> nat \<Rightarrow> store \<Rightarrow> (error + unit) \<times> store" where
  "basicStore fs boolean parts params h =
     thenRun (reading (operatorPartStore h (field fs ''operator'') (field fs ''value'')) h)
       (\<lambda>(operatorPart, vs) h.
     thenRun (pushing params vs h) (\<lambda>u h.
     thenRun (reading (asText (field fs ''column'')) h) (\<lambda>column h.
       pushing parts [HStr (boolean @ column @ '' '' @ operatorPart)] h)))"

definition groupStore ::
  "string \<Rightarrow> string \<Rightarrow> nat \<Rightarrow> nat \<Rightarrow> nat \<Rightarrow> store \<Rightarrow> (error + unit) \<times> store" where
  "groupStore boolean nestedSql nestedParams parts params h =
     thenRun (pushing parts [HStr (boolean @ ''('' @ nestedSql @ '')'')] h) (\<lambda>u h.
     thenRun (reading (getArr h (HRef nestedParams)) h) (\<lambda>vs h.
       pushing params vs h))"

definition rawStore ::
  "(string \<times> hval) list \<Rightarrow> string \<Rightarrow> nat \<Rightarrow> nat \<Rightarrow> store \<Rightarrow> (error + unit) \<times> store" where
  "rawStore fs boolean parts params h =
     thenRun (reading (asText (field fs ''sql'')) h) (\<lambda>sql h.
     thenRun (pushing parts [HStr (boolean @ ''('' @ sql @ '')'')] h) (\<lambda>u h.
     thenRun (reading (spreadOrEmpty h (field fs ''params'')) h) (\<lambda>vs h.
       pushing params vs h)))"

text \<open>
  \<open>buildWhereClauseStore\<close> is the method, with \<open>depth\<close> the number of nested calls the
  stack still allows; \<open>forEachClauseStore\<close> its \<open>forEach\<close> over the elements from a given
  index on; \<open>clauseStore\<close> the callback for one element.
\<close>

fun buildWhereClauseStore :: "nat \<Rightarrow> hval \<Rightarrow> store \<Rightarrow> (error + (string \<times> nat)) \<times> store"
  and forEachClauseStore ::
    "nat \<Rightarrow> nat \<Rightarrow> hval list \<Rightarrow> nat \<Rightarrow> nat \<Rightarrow> store \<Rightarrow> (error + unit) \<times> store"
  and clauseStore :: "nat \<Rightarrow> nat \<Rightarrow> hval \<Rightarrow> nat \<Rightarrow> nat \<Rightarrow> store \<Rightarrow> (error + unit) \<times> store"
where
  "buildWhereClauseStore 0 clauses h = (Inl RangeError, h)"
| "buildWhereClauseStore (Suc depth) clauses h =
     (case alloc (Arr []) h of
        (parts, h1) \<Rightarrow>
          (case alloc (Arr []) h1 of
             (params, h2) \<Rightarrow>
               (case getArr h2 clauses of
                  Inl e \<Rightarrow> (Inl e, h2)
                | Inr cs \<Rightarrow>
                    (case forEachClauseStore depth 0 cs parts params h2 of
                       (Inl e, h3) \<Rightarrow> (Inl e, h3)
                     | (Inr u, h3) \<Rightarrow>
                         (case getStrings h3 (HRef parts) of
                            Inl e \<Rightarrow> (Inl e, h3)
                          | Inr ps \<Rightarrow> (Inr (js_join '' '' ps, params), h3))))))"
| "forEachClauseStore depth index [] parts params h = (Inr (), h)"
| "forEachClauseStore depth index (c # cs) parts params h =
     (case clauseStore depth index c parts params h of
        (Inl e, h') \<Rightarrow> (Inl e, h')
      | (Inr u, h') \<Rightarrow> forEachClauseStore depth (Suc index) cs parts params h')"
| "clauseStore depth index clause parts params h =
     (case clauseHeader h index clause of
        Inl e \<Rightarrow> (Inl e, h)
      | Inr (fs, boolean) \<Rightarrow>
          (if field fs ''type'' = HStr ''basic'' then basicStore fs boolean parts params h
           else if field fs ''type'' = HStr ''group'' then
             (case buildWhereClauseStore depth (field fs ''clauses'') h of
                (Inl e, h') \<Rightarrow> (Inl e, h')
              | (Inr (nestedSql, nestedParams), h') \<Rightarrow>
                  groupStore boolean nestedSql nestedParams parts params h')
           else if field fs ''type'' = HStr ''raw'' then rawStore fs boolean parts params h
           else (Inr (), h)))"

text \<open>
  The iterations of \<open>buildSql\<close>: over the joins, appending to the SQL text and pushing each
  join's parameters; over the \<open>HAVING\<close> conditions, pushing the value and the part; and
  the \<open>map\<close> over the \<open>ORDER BY\<close> pairs.
\<close>

fun joinsStore :: "hval list \<Rightarrow> nat \<Rightarrow> string \<Rightarrow> store \<Rightarrow> (error + string) \<times> store" where
  "joinsStore [] params sql h = (Inr sql, h)"
| "joinsStore (j # js) params sql h =
     (case thenDo (getObj h j) (\<lambda>fs.
             thenDo (asText (field fs ''type'')) (\<lambda>ty.
             thenDo (asText (field fs ''table'')) (\<lambda>tb.
             thenDo (asText (field fs ''on'')) (\<lambda>onSql.
             thenDo (getArr h (field fs ''params'')) (\<lambda>vs.
               Inr (sql @ '' '' @ ty @ '' JOIN '' @ tb @ '' ON '' @ onSql, vs)))))) of
        Inl e \<Rightarrow> (Inl e, h)
      | Inr (sql', vs) \<Rightarrow>
          (case push params vs h of
             Inl e \<Rightarrow> (Inl e, h)
           | Inr h' \<Rightarrow> joinsStore js params sql' h'))"

fun havingStore :: "hval list \<Rightarrow> nat \<Rightarrow> nat \<Rightarrow> store \<Rightarrow> (error + unit) \<times> store" where
  "havingStore [] params havingParts h = (Inr (), h)"
| "havingStore (c # cs) params havingParts h =
     (case thenRun (reading (getObj h c) h) (\<lambda>fs h.
             thenRun (pushing params [field fs ''value''] h) (\<lambda>u h.
             thenRun (reading (asText (field fs ''column'')) h) (\<lambda>column h.
             thenRun (reading (asText (field fs ''operator'')) h) (\<lambda>opr h.
               pushing havingParts [HStr (column @ '' '' @ opr @ '' ?'')] h)))) of
        (Inl e, h') \<Rightarrow> (Inl e, h')
      | (Inr u, h') \<Rightarrow> havingStore cs params havingParts h')"

fun orderByTexts :: "store \<Rightarrow> hval list \<Rightarrow> error + string list" where
  "orderByTexts h [] = Inr []"
| "orderByTexts h (pair # pairs) =
     thenDo (indexStore h pair 0) (\<lambda>c.
     thenDo (asText c) (\<lambda>column.
     thenDo (indexStore h pair 1) (\<lambda>d.
     thenDo (asText d) (\<lambda>dir.
     thenDo (orderByTexts h pairs) (\<lambda>rest. Inr ((column @ '' '' @ dir) # rest))))))"

text \<open>
  The sections of \<open>buildSql\<close> after the \<open>SELECT ... FROM\<close> text and the allocation of
  \<open>params\<close>, each taking the SQL text so far.
\<close>

definition joinSection :: "hval \<Rightarrow> nat \<Rightarrow> string \<Rightarrow> store \<Rightarrow> (error + string) \<times> store" where
  "joinSection this params sql h =
     thenRun (reading (thenDo (thisField h this ''joinClauses'') (getArr h)) h) (\<lambda>joins h.
       joinsStore joins params sql h)"

definition whereSection ::
  "nat \<Rightarrow> hval \<Rightarrow> nat \<Rightarrow> string \<Rightarrow> store \<Rightarrow> (error + string) \<times> store" where
  "whereSection depth this params sql h =
     thenRun (reading (thisField h this ''whereClauses'') h) (\<lambda>clauses h.
     thenRun (reading (getArr h clauses) h) (\<lambda>cs h.
       if length cs > 0 then
         thenRun (buildWhereClauseStore depth clauses h) (\<lambda>(whereSql, whereParams) h.
         thenRun (reading (getArr h (HRef whereParams)) h) (\<lambda>vs h.
         thenRun (pushing params vs h) (\<lambda>u h.
           (Inr (sql @ '' WHERE '' @ whereSql), h))))
       else (Inr sql, h)))"

definition groupBySection :: "hval \<Rightarrow> string \<Rightarrow> store \<Rightarrow> (error + string) \<times> store" where
  "groupBySection this sql h =
     thenRun (reading (thenDo (thisField h this ''groupByColumns'') (getStrings h)) h) (\<lambda>cols h.
       if length cols > 0 then (Inr (sql @ '' GROUP BY '' @ js_join '', '' cols), h)
       else (Inr sql, h))"

definition havingSection :: "hval \<Rightarrow> nat \<Rightarrow> string \<Rightarrow> store \<Rightarrow> (error + string) \<times> store" where
  "havingSection this params sql h =
     thenRun (reading (thenDo (thisField h this ''havingConditions'') (getArr h)) h) (\<lambda>cs h.
       if length cs > 0 then
         (case alloc (Arr []) h of
            (havingParts, h1) \<Rightarrow>
              thenRun (havingStore cs params havingParts h1) (\<lambda>u h.
              thenRun (reading (getStrings h (HRef havingParts)) h) (\<lambda>ps h.
                (Inr (sql @ '' HAVING '' @ js_join '' AND '' ps), h))))
       else (Inr sql, h))"

definition orderBySection :: "hval \<Rightarrow> string \<Rightarrow> store \<Rightarrow> (error + string) \<times> store" where
  "orderBySection this sql h =
     thenRun (reading (thenDo (thisField h this ''orderByConditions'') (getArr h)) h) (\<lambda>pairs h.
       if length pairs > 0 then
         thenRun (reading (orderByTexts h pairs) h) (\<lambda>orderByParts h.
           (Inr (sql @ '' ORDER BY '' @ js_join '', '' orderByParts), h))
       else (Inr sql, h))"

definition pagingSection ::
  "string \<Rightarrow> string \<Rightarrow> hval \<Rightarrow> nat \<Rightarrow> string \<Rightarrow> store \<Rightarrow> (error + string) \<times> store" where
  "pagingSection key keyword this params sql h =
     thenRun (reading (thisField h this key) h) (\<lambda>v h.
       if v \<noteq> HNull then
         thenRun (pushing params [v] h) (\<lambda>u h. (Inr (sql @ keyword), h))
       else (Inr sql, h))"

definition buildSqlStore :: "nat \<Rightarrow> hval \<Rightarrow> store \<Rightarrow> (error + (string \<times> nat)) \<times> store" where
  "buildSqlStore depth this h =
     thenRun (reading (thenDo (thisField h this ''selectColumns'') (getStrings h)) h) (\<lambda>cols h.
     thenRun (reading (thenDo (thisField h this ''tableName'') asString) h) (\<lambda>table h.
       (case alloc (Arr []) h of
          (params, h1) \<Rightarrow>
            thenRun (joinSection this params
                       (''SELECT '' @ js_join '', '' cols @ '' FROM '' @ table) h1) (\<lambda>sql h.
            thenRun (whereSection depth this params sql h) (\<lambda>sql h.
            thenRun (groupBySection this sql h) (\<lambda>sql h.
            thenRun (havingSection this params sql h) (\<lambda>sql h.
            thenRun (orderBySection this sql h) (\<lambda>sql h.
            thenRun (pagingSection ''limitValue'' '' LIMIT ?'' this params sql h) (\<lambda>sql h.
            thenRun (pagingSection ''offsetValue'' '' OFFSET ?'' this params sql h) (\<lambda>sql h.
              (Inr (sql, params), h)))))))))))"

section \<open>Model\<close>






section \<open>Vocabulary of the statements\<close>

text \<open>
  What a successful run of \<open>migrateUp\<close> over the given names logs: each \<open>up\<close> followed at
  once by that migration's ledger \<open>INSERT\<close>.
\<close>

definition upEvents :: "string list \<Rightarrow> event list" where
  "upEvents names = concat (map (\<lambda>n. [RunUp n, InsertRow n]) names)"

text \<open>
  The ledger entries \<open>migrateDown\<close> went through, in order (rolled back or skipped with
  the warning), and the names whose ledger \<open>DELETE\<close> was issued.
\<close>

definition attempted :: "event list \<Rightarrow> string list" where
  "attempted evs =
     concat (map (\<lambda>ev. case ev of RunDown n \<Rightarrow> [n] | WarnMissing n \<Rightarrow> [n] | _ \<Rightarrow> []) evs)"

definition deletedRows :: "event list \<Rightarrow> string list" where
  "deletedRows evs = concat (map (\<lambda>ev. case ev of DeleteRow n \<Rightarrow> [n] | _ \<Rightarrow> []) evs)"

text \<open>
  What \<open>migrateDown\<close> logs when it gets through the given ledger entries: for an entry
  with a definition its \<open>down\<close> followed at once by the ledger \<open>DELETE\<close>, for one
  without the warning. \<open>downsOf\<close> are the \<open>down\<close> procedures of the entries that have a
  definition, in the order of the entries, and \<open>runAll\<close> runs procedures one after the
  other on the database until one rejects.
\<close>

definition downEvents :: "(string \<Rightarrow> 's Migration option) \<Rightarrow> string list \<Rightarrow> event list" where
  "downEvents lookup names =
     concat (map (\<lambda>n. case lookup n of
                         Some m \<Rightarrow> [RunDown n, DeleteRow n]
                       | None \<Rightarrow> [WarnMissing n]) names)"

definition downsOf :: "(string \<Rightarrow> 's Migration option) \<Rightarrow> string list \<Rightarrow> 's procedure list" where
  "downsOf lookup names =
     concat (map (\<lambda>n. case lookup n of Some m \<Rightarrow> [down m] | None \<Rightarrow> []) names)"

fun runAll :: "'s procedure list \<Rightarrow> 's \<Rightarrow> error option \<times> 's" where
  "runAll [] s = (None, s)"
| "runAll (p # ps) s = (case p s of (Some e, s') \<Rightarrow> (Some e, s') | (None, s') \<Rightarrow> runAll ps s')"

text \<open>
  Example inputs: procedures that resolve or reject without touching the database, a
  loader under which every file exports resolving procedures, and a database with an
  empty ledger.
\<close>

definition resolves :: "unit procedure" where
  "resolves s = (None, s)"


definition requireResolving :: "string \<Rightarrow> (unit procedure \<times> unit procedure) option" where
  "requireResolving file = Some (resolves, resolves)"

definition emptyWorld :: "unit world" where
  "emptyWorld = \<lparr>ledger = [], userdb = (), events = []\<rparr>"


text \<open>
  Example inputs for rolling back: a database that is the list of the names whose
  \<open>down\<close> has run, a \<open>down\<close> that appends its name, one that rejects, loaders that
  give every file such procedures, and a ledger holding A, B and C.
\<close>

definition recordsDown :: "string \<Rightarrow> string list procedure" where
  "recordsDown n s = (None, s @ [n])"

definition keeps :: "string list procedure" where
  "keeps s = (None, s)"

definition rejectsDown :: "string list procedure" where
  "rejectsDown s = (Some (DriverError ''failed''), s)"

definition requireRejectingDownB ::
  "string \<Rightarrow> (string list procedure \<times> string list procedure) option" where
  "requireRejectingDownB file =
     (if file = ''B.ts'' then Some (keeps, rejectsDown)
      else Some (keeps, recordsDown (parseName file)))"

definition requireRecording :: "string \<Rightarrow> (string list procedure \<times> string list procedure) option" where
  "requireRecording file = Some (keeps, recordsDown (parseName file))"

definition recordingWorld :: "string list world" where
  "recordingWorld = \<lparr>ledger = [''A'', ''B'', ''C''], userdb = [], events = []\<rparr>"





section \<open>The plan a store holds\<close>

text \<open>
  What the statements about the store are stated with. \<open>unchangedBelow n h h'\<close>: the
  store \<open>h'\<close> has every address of \<open>h\<close>, and below \<open>n\<close> the same arrays and objects.
  \<open>readBuilder\<close> reads the builder object at \<open>this\<close> and everything it refers to out of
  the store, as the plan of the builder (\<open>depth\<close> bounds the nesting of groups it
  follows, \<open>vdepth\<close> that of arrays inside values); it fails where the store does not
  hold a builder built by the builder's methods. \<open>readResult\<close> reads what \<open>buildSql\<close>
  returned, the parameters out of their array.
\<close>

definition unchangedBelow :: "nat \<Rightarrow> store \<Rightarrow> store \<Rightarrow> bool" where
  "unchangedBelow n h h' \<longleftrightarrow> length h \<le> length h' \<and> take n h' = take n h"

definition asBoolean :: "hval \<Rightarrow> error + boolean" where
  "asBoolean v =
     (if v = HStr ''AND'' then Inr AND else if v = HStr ''OR'' then Inr OR else Inl IllTyped)"

definition asJoinType :: "hval \<Rightarrow> error + JoinType" where
  "asJoinType v =
     (if v = HStr ''INNER'' then Inr INNER else if v = HStr ''LEFT'' then Inr LEFT
      else if v = HStr ''RIGHT'' then Inr RIGHT else Inl IllTyped)"

definition asDirection :: "hval \<Rightarrow> error + direction" where
  "asDirection v =
     (if v = HStr ''ASC'' then Inr ASC else if v = HStr ''DESC'' then Inr DESC else Inl IllTyped)"

definition readBasic :: "nat \<Rightarrow> store \<Rightarrow> (string \<times> hval) list \<Rightarrow> boolean \<Rightarrow> error + clause" where
  "readBasic vdepth h fs b =
     thenDo (asString (field fs ''column'')) (\<lambda>column.
     thenDo (asString (field fs ''operator'')) (\<lambda>opr.
     thenDo (readValue vdepth h (field fs ''value'')) (\<lambda>v.
       Inr (Basic b column opr v))))"

definition readRaw :: "nat \<Rightarrow> store \<Rightarrow> (string \<times> hval) list \<Rightarrow> boolean \<Rightarrow> error + clause" where
  "readRaw vdepth h fs b =
     thenDo (asString (field fs ''sql'')) (\<lambda>sql.
     thenDo (spreadOrEmpty h (field fs ''params'')) (\<lambda>vs.
     thenDo (readValues vdepth h vs) (\<lambda>ps.
       Inr (Raw b sql ps))))"

fun readClauseArray :: "nat \<Rightarrow> nat \<Rightarrow> store \<Rightarrow> hval \<Rightarrow> error + clause list"
  and readClauses :: "nat \<Rightarrow> nat \<Rightarrow> store \<Rightarrow> hval list \<Rightarrow> error + clause list"
  and readClause :: "nat \<Rightarrow> nat \<Rightarrow> store \<Rightarrow> hval \<Rightarrow> error + clause"
where
  "readClauseArray 0 vdepth h v = Inl RangeError"
| "readClauseArray (Suc depth) vdepth h v =
     (case getArr h v of
        Inl e \<Rightarrow> Inl e
      | Inr cs \<Rightarrow> readClauses depth vdepth h cs)"
| "readClauses depth vdepth h [] = Inr []"
| "readClauses depth vdepth h (c # cs) =
     (case readClause depth vdepth h c of
        Inl e \<Rightarrow> Inl e
      | Inr x \<Rightarrow>
          (case readClauses depth vdepth h cs of
             Inl e \<Rightarrow> Inl e
           | Inr xs \<Rightarrow> Inr (x # xs)))"
| "readClause depth vdepth h c =
     (case getObj h c of
        Inl e \<Rightarrow> Inl e
      | Inr fs \<Rightarrow>
          (case asBoolean (field fs ''boolean'') of
             Inl e \<Rightarrow> Inl e
           | Inr b \<Rightarrow>
               (if field fs ''type'' = HStr ''basic'' then readBasic vdepth h fs b
                else if field fs ''type'' = HStr ''group'' then
                  (case readClauseArray depth vdepth h (field fs ''clauses'') of
                     Inl e \<Rightarrow> Inl e
                   | Inr cls \<Rightarrow> Inr (Group b cls))
                else if field fs ''type'' = HStr ''raw'' then readRaw vdepth h fs b
                else Inl IllTyped)))"

fun readHavings :: "nat \<Rightarrow> store \<Rightarrow> hval list \<Rightarrow> error + clause list" where
  "readHavings vdepth h [] = Inr []"
| "readHavings vdepth h (c # cs) =
     thenDo (getObj h c) (\<lambda>fs.
     thenDo (asBoolean (field fs ''boolean'')) (\<lambda>b.
     thenDo (if field fs ''type'' = HStr ''basic'' then readBasic vdepth h fs b
             else Inl IllTyped) (\<lambda>x.
     thenDo (readHavings vdepth h cs) (\<lambda>xs. Inr (x # xs)))))"

fun readJoins :: "nat \<Rightarrow> store \<Rightarrow> hval list \<Rightarrow> error + joinClause list" where
  "readJoins vdepth h [] = Inr []"
| "readJoins vdepth h (j # js) =
     thenDo (getObj h j) (\<lambda>fs.
     thenDo (asJoinType (field fs ''type'')) (\<lambda>ty.
     thenDo (asString (field fs ''table'')) (\<lambda>tb.
     thenDo (asString (field fs ''on'')) (\<lambda>onSql.
     thenDo (getArr h (field fs ''params'')) (\<lambda>vs.
     thenDo (readValues vdepth h vs) (\<lambda>ps.
     thenDo (readJoins vdepth h js) (\<lambda>rest.
       Inr (\<lparr>joinType = ty, joinTable = tb, joinOn = onSql, joinParams = ps\<rparr> # rest))))))))"

fun readOrderBys :: "store \<Rightarrow> hval list \<Rightarrow> error + (string \<times> direction) list" where
  "readOrderBys h [] = Inr []"
| "readOrderBys h (pair # pairs) =
     thenDo (getArr h pair) (\<lambda>xs.
     thenDo (if length xs = 2 then Inr () else Inl IllTyped) (\<lambda>u.
     thenDo (asString (xs ! 0)) (\<lambda>column.
     thenDo (asDirection (xs ! 1)) (\<lambda>dir.
     thenDo (readOrderBys h pairs) (\<lambda>rest. Inr ((column, dir) # rest))))))"

definition readPaging :: "hval \<Rightarrow> error + int option" where
  "readPaging v = (case v of HNull \<Rightarrow> Inr None | HNum n \<Rightarrow> Inr (Some n) | _ \<Rightarrow> Inl IllTyped)"

definition readGroup :: "nat \<Rightarrow> nat \<Rightarrow> store \<Rightarrow> hval \<Rightarrow> error + clause list option" where
  "readGroup depth vdepth h v =
     (if v = HNull then Inr None
      else thenDo (readClauseArray depth vdepth h v) (\<lambda>cls. Inr (Some cls)))"

definition readBuilder :: "nat \<Rightarrow> nat \<Rightarrow> store \<Rightarrow> hval \<Rightarrow> error + QueryBuilder" where
  "readBuilder depth vdepth h this =
     thenDo (getObj h this) (\<lambda>fs.
     thenDo (asString (field fs ''tableName'')) (\<lambda>table.
     thenDo (getStrings h (field fs ''selectColumns'')) (\<lambda>cols.
     thenDo (readClauseArray depth vdepth h (field fs ''whereClauses'')) (\<lambda>clauses.
     thenDo (readPaging (field fs ''limitValue'')) (\<lambda>lim.
     thenDo (readPaging (field fs ''offsetValue'')) (\<lambda>off.
     thenDo (thenDo (getArr h (field fs ''orderByConditions'')) (readOrderBys h)) (\<lambda>orders.
     thenDo (getStrings h (field fs ''groupByColumns'')) (\<lambda>groups.
     thenDo (thenDo (getArr h (field fs ''havingConditions'')) (readHavings vdepth h)) (\<lambda>havings.
     thenDo (thenDo (getArr h (field fs ''joinClauses'')) (readJoins vdepth h)) (\<lambda>joins.
     thenDo (readGroup depth vdepth h (field fs ''currentWhereGroup'')) (\<lambda>grp.
       Inr \<lparr> tableName = table, selectColumns = cols, whereClauses = clauses,
             limitValue = lim, offsetValue = off, orderByConditions = orders,
             groupByColumns = groups, havingConditions = havings, joinClauses = joins,
             currentWhereGroup = grp \<rparr>)))))))))))"

definition readResult ::
  "nat \<Rightarrow> store \<Rightarrow> error + (string \<times> nat) \<Rightarrow> error + (string \<times> jsval list)" where
  "readResult vdepth h r =
     (case r of
        Inl e \<Rightarrow> Inl e
      | Inr (sql, params) \<Rightarrow>
          thenDo (getArr h (HRef params)) (\<lambda>vs.
          thenDo (readValues vdepth h vs) (\<lambda>ps. Inr (sql, ps))))"

text \<open>
  An example store: the builder of
  \<open>table('users').whereIn('age', [18, 21]).orWhere(q => q.whereRaw('vip = ?', [true])).limit(10)\<close>
  at address 12, with its arrays and nodes at the addresses below; and the plan it holds.
\<close>

definition planStore :: store where
  "planStore =
     [Arr [HStr ''*''],
      Arr [HNum 18, HNum 21],
      Obj [(''type'', HStr ''basic''), (''boolean'', HStr ''AND''), (''column'', HStr ''age''),
           (''operator'', HStr ''IN''), (''value'', HRef 1)],
      Arr [HBool True],
      Obj [(''type'', HStr ''raw''), (''boolean'', HStr ''AND''), (''sql'', HStr ''vip = ?''),
           (''params'', HRef 3)],
      Arr [HRef 4],
      Obj [(''type'', HStr ''group''), (''boolean'', HStr ''OR''), (''clauses'', HRef 5)],
      Arr [HRef 2, HRef 6],
      Arr [], Arr [], Arr [], Arr [],
      Obj [(''tableName'', HStr ''users''), (''selectColumns'', HRef 0),
           (''whereClauses'', HRef 7), (''limitValue'', HNum 10), (''offsetValue'', HNull),
           (''orderByConditions'', HRef 8), (''groupByColumns'', HRef 9),
           (''havingConditions'', HRef 10), (''joinClauses'', HRef 11),
           (''currentWhereGroup'', HNull)]]"

definition planOfStore :: QueryBuilder where
  "planOfStore =
     (newQueryBuilder ''users'')
       \<lparr> whereClauses :=
           [Basic AND ''age'' ''IN'' (JArr [JNum 18, JNum 21]),
            Group OR [Raw AND ''vip = ?'' [JBool True]]],
         limitValue := Some 10 \<rparr>"

section \<open>Helper lemmas: chaining and joining\<close>

lemma thenDo_simps [simp]: "thenDo (Inl e) f = Inl e" "thenDo (Inr x) f = f x"
  by (simp_all add: thenDo_def)

lemma js_join_snoc: "xs \<noteq> [] \<Longrightarrow> js_join sep (xs @ [y]) = js_join sep xs @ sep @ y"
  by (induction sep xs rule: js_join.induct) auto

lemma clausePart_later:
  "clausePart (Suc n) d =
     thenDo (clausePart 0 d) (\<lambda>(s, p). Inr (booleanStr (clauseBoolean d) @ '' '' @ s, p))"
  by (cases d) (auto split: sum.splits)

lemma forEachClause_length:
  "forEachClause i cs = Inr (parts, ps) \<Longrightarrow> length parts = length cs"
  by (induction cs arbitrary: i parts ps) (auto split: sum.splits)

lemma forEachClause_snoc:
  "forEachClause i (cs @ [d]) =
     thenDo (forEachClause i cs) (\<lambda>(parts, ps).
       thenDo (clausePart (i + length cs) d) (\<lambda>(part, q). Inr (parts @ [part], ps @ q)))"
  by (induction cs arbitrary: i) (auto simp: thenDo_def split: sum.splits prod.splits)

lemma buildWhereClause_snoc:
  assumes "cs \<noteq> []"
  shows "buildWhereClause (cs @ [d]) =
     thenDo (buildWhereClause cs) (\<lambda>(s, p).
       thenDo (buildWhereClause [d]) (\<lambda>(t, q).
         Inr (s @ '' '' @ booleanStr (clauseBoolean d) @ '' '' @ t, p @ q)))"
proof -
  obtain n where n: "length cs = Suc n" using assms by (cases cs) auto
  show ?thesis
  proof (cases "forEachClause 0 cs")
    case (Inl e)
    then show ?thesis by (simp add: forEachClause_snoc del: forEachClause.simps)
  next
    case (Inr r)
    obtain parts ps where r: "r = (parts, ps)" by (cases r)
    have ne: "parts \<noteq> []" using forEachClause_length[of 0 cs parts ps] Inr r assms by auto
    have single: "forEachClause 0 [d] = thenDo (clausePart 0 d) (\<lambda>(s, p). Inr ([s], p))"
      by (auto split: sum.splits)
    show ?thesis
      using Inr r ne n
      by (cases "clausePart 0 d")
         (auto simp add: forEachClause_snoc clausePart_later js_join_snoc single
               simp del: forEachClause.simps clausePart.simps)
  qed
qed

lemma buildWhereClause_Basic_single:
  "buildWhereClause [Basic b column opr v] =
     thenDo (operatorPart opr v) (\<lambda>(opPart, ps). Inr (column @ '' '' @ opPart, ps))"
  by (auto split: sum.splits)

lemma buildWhereClause_Group_single:
  "buildWhereClause [Group b g] =
     thenDo (buildWhereClause g) (\<lambda>(s, ps). Inr (''('' @ s @ '')'', ps))"
  by (auto split: sum.splits simp del: buildWhereClause.simps
      simp add: buildWhereClause.simps[of "[Group b g]"])

lemma buildWhereClause_Raw_single:
  "buildWhereClause [Raw b sql ps] = Inr (''('' @ sql @ '')'', ps)"
  by simp

lemma where_orWhere_clauses:
  assumes "v1 \<noteq> JUndefined" "v2 \<noteq> JUndefined"
  shows "thenDo (where' (Column c1) (Some o1) v1 (newQueryBuilder t))
            (orWhere (Column c2) (Some o2) v2) =
         Inr ((newQueryBuilder t)\<lparr>whereClauses := [Basic AND c1 o1 v1, Basic OR c2 o2 v2]\<rparr>)"
  using assms by (simp add: where'_def orWhere_def addWhere_def newQueryBuilder_def)

lemma two_basic:
  "buildWhereClause [Basic AND c1 o1 v1, Basic OR c2 o2 v2] =
     thenDo (operatorPart o1 v1) (\<lambda>(a, p).
       thenDo (operatorPart o2 v2) (\<lambda>(b, q).
         Inr (c1 @ '' '' @ a @ '' OR '' @ c2 @ '' '' @ b, p @ q)))"
  by (auto split: sum.splits)

section \<open>Query builder: placeholders and parameters\<close>

text \<open>
  C1. The claim: the compiled SQL has as many \<open>?\<close> placeholders as parameters, in the
  same order. The code at \<open>where("age", ">", 18)\<close> on table \<open>users\<close>: the last branch of
  \<open>buildWhereClause\<close> pushes the value and leaves the operator text without a
  placeholder, so the SQL has no placeholder for the one parameter. The query that
  \<open>Model.findById\<close> builds, \<open>where('id', '=', id)\<close> with \<open>limit(1)\<close>, compiles to one
  placeholder for two parameters.
\<close>

theorem C1_default_operator_pushes_value_without_placeholder:
  "thenDo (where' (Column ''age'') (Some ''>'') (JNum 18) (newQueryBuilder ''users''))
     (\<lambda>q. fst (buildSql q)) =
   Inr (''SELECT * FROM users WHERE age >'', [JNum 18])
   \<and> buildWhereClause [Basic AND ''age'' ''>'' (JNum 18)] = Inr (''age >'', [JNum 18])
   \<and> placeholders ''age >'' = 0
   \<and> placeholders ''SELECT * FROM users WHERE age >'' \<noteq> length [JNum 18]
   \<and> thenDo (where' (Column ''id'') (Some ''='') (JNum 5) (newQueryBuilder ''users''))
       (\<lambda>q. fst (buildSql (limit 1 q))) =
     Inr (''SELECT * FROM users WHERE id = LIMIT ?'', [JNum 5, JNum 1])
   \<and> placeholders ''SELECT * FROM users WHERE id = LIMIT ?'' = 1"
  by (simp add: where'_def addWhere_def newQueryBuilder_def buildSql_def operatorPart_def
        placeholders_def limit_def)

text \<open>
  C2. The claim: the chain \<open>where("age", ">", 18)\<close>, \<open>orWhere("vip", "=", true)\<close>,
  \<open>whereIn("status", ["active", "pending"])\<close> on \<open>users\<close> compiles to
  \<open>SELECT * FROM users WHERE age > ? OR vip = ? AND status IN (?, ?)\<close>. The code
  returns the four parameters in that order, and an SQL text with placeholders for the
  \<open>IN\<close> list only.
\<close>

theorem C2_example_scenario_compiles_without_comparison_placeholders:
  "thenDo (thenDo (where' (Column ''age'') (Some ''>'') (JNum 18) (newQueryBuilder ''users''))
             (orWhere (Column ''vip'') (Some ''='') (JBool True)))
     (\<lambda>q. fst (buildSql (whereIn ''status'' [JStr ''active'', JStr ''pending''] q))) =
   Inr (''SELECT * FROM users WHERE age > OR vip = AND status IN (?, ?)'',
        [JNum 18, JBool True, JStr ''active'', JStr ''pending''])
   \<and> ''SELECT * FROM users WHERE age > OR vip = AND status IN (?, ?)'' \<noteq>
       ''SELECT * FROM users WHERE age > ? OR vip = ? AND status IN (?, ?)''"
  by (simp add: where'_def orWhere_def whereIn_def addWhere_def newQueryBuilder_def
        buildSql_def operatorPart_def)

section \<open>Query builder: boolean keywords\<close>

text \<open>
  C3. In a sibling sequence the first node is rendered without its keyword, whatever the
  keyword is: a sequence that differs only in the first node's keyword compiles to the
  same result, and a node alone renders as column and operator part, parenthesised
  group, or parenthesised raw text. Every later node is rendered as a space, its own
  keyword, a space and the node as it renders alone, with its parameters after those
  before it. For \<open>where(c1, op1, v1)\<close> then \<open>orWhere(c2, op2, v2)\<close> with defined values,
  the builder holds the two basic nodes and the clause is the first condition, \<open>OR\<close>,
  the second condition.
\<close>

theorem C3_first_keyword_omitted_later_keywords_rendered:
  "buildWhereClause (Basic b column opr v # rest) = buildWhereClause (Basic b' column opr v # rest)
   \<and> buildWhereClause (Group b g # rest) = buildWhereClause (Group b' g # rest)
   \<and> buildWhereClause (Raw b sql ps # rest) = buildWhereClause (Raw b' sql ps # rest)
   \<and> buildWhereClause [Basic b column opr v] =
       thenDo (operatorPart opr v) (\<lambda>(opPart, ps). Inr (column @ '' '' @ opPart, ps))
   \<and> buildWhereClause [Group b g] =
       thenDo (buildWhereClause g) (\<lambda>(s, ps). Inr (''('' @ s @ '')'', ps))
   \<and> buildWhereClause [Raw b sql ps] = Inr (''('' @ sql @ '')'', ps)
   \<and> (cs \<noteq> [] \<longrightarrow>
        buildWhereClause (cs @ [d]) =
          thenDo (buildWhereClause cs) (\<lambda>(s, p).
            thenDo (buildWhereClause [d]) (\<lambda>(t, q).
              Inr (s @ '' '' @ booleanStr (clauseBoolean d) @ '' '' @ t, p @ q))))
   \<and> (v1 \<noteq> JUndefined \<and> v2 \<noteq> JUndefined \<longrightarrow>
        thenDo (where' (Column c1) (Some o1) v1 (newQueryBuilder t))
          (orWhere (Column c2) (Some o2) v2) =
        Inr ((newQueryBuilder t)\<lparr>whereClauses := [Basic AND c1 o1 v1, Basic OR c2 o2 v2]\<rparr>)
        \<and> buildWhereClause [Basic AND c1 o1 v1, Basic OR c2 o2 v2] =
            thenDo (operatorPart o1 v1) (\<lambda>(a, p).
              thenDo (operatorPart o2 v2) (\<lambda>(b, q).
                Inr (c1 @ '' '' @ a @ '' OR '' @ c2 @ '' '' @ b, p @ q))))"
proof (intro conjI impI)
  show "buildWhereClause (Basic b column opr v # rest) = buildWhereClause (Basic b' column opr v # rest)"
    by simp
  show "buildWhereClause (Group b g # rest) = buildWhereClause (Group b' g # rest)"
    by (simp del: buildWhereClause.simps
        add: buildWhereClause.simps[of "Group b g # rest"] buildWhereClause.simps[of "Group b' g # rest"])
  show "buildWhereClause (Raw b sql ps # rest) = buildWhereClause (Raw b' sql ps # rest)"
    by simp
  show "buildWhereClause [Basic b column opr v] =
       thenDo (operatorPart opr v) (\<lambda>(opPart, ps). Inr (column @ '' '' @ opPart, ps))"
    by (rule buildWhereClause_Basic_single)
  show "buildWhereClause [Group b g] =
       thenDo (buildWhereClause g) (\<lambda>(s, ps). Inr (''('' @ s @ '')'', ps))"
    by (rule buildWhereClause_Group_single)
  show "buildWhereClause [Raw b sql ps] = Inr (''('' @ sql @ '')'', ps)"
    by simp
next
  assume "cs \<noteq> []"
  then show "buildWhereClause (cs @ [d]) =
          thenDo (buildWhereClause cs) (\<lambda>(s, p).
            thenDo (buildWhereClause [d]) (\<lambda>(t, q).
              Inr (s @ '' '' @ booleanStr (clauseBoolean d) @ '' '' @ t, p @ q)))"
    by (rule buildWhereClause_snoc)
next
  assume a: "v1 \<noteq> JUndefined \<and> v2 \<noteq> JUndefined"
  then show "thenDo (where' (Column c1) (Some o1) v1 (newQueryBuilder t))
          (orWhere (Column c2) (Some o2) v2) =
        Inr ((newQueryBuilder t)\<lparr>whereClauses := [Basic AND c1 o1 v1, Basic OR c2 o2 v2]\<rparr>)"
    by (simp add: where_orWhere_clauses)
  show "buildWhereClause [Basic AND c1 o1 v1, Basic OR c2 o2 v2] =
            thenDo (operatorPart o1 v1) (\<lambda>(a, p).
              thenDo (operatorPart o2 v2) (\<lambda>(b, q).
                Inr (c1 @ '' '' @ a @ '' OR '' @ c2 @ '' '' @ b, p @ q)))"
    by (rule two_basic)
qed

theorem C3_witness:
  "[Basic AND ''a'' ''IS NULL'' JNull, Group OR [Raw AND ''x = 1'' []]] \<noteq> []
   \<and> buildWhereClause ([Basic AND ''a'' ''IS NULL'' JNull, Group OR [Raw AND ''x = 1'' []]]
        @ [Basic OR ''b'' ''IN'' (JArr [JNum 1, JNum 2])]) =
       Inr (''a IS NULL OR ((x = 1)) OR b IN (?, ?)'', [JNum 1, JNum 2])
   \<and> buildWhereClause (Basic OR ''a'' ''IS NULL'' JNull # [Raw OR ''y'' []]) =
       buildWhereClause (Basic AND ''a'' ''IS NULL'' JNull # [Raw OR ''y'' []])
   \<and> JNum 18 \<noteq> JUndefined \<and> JBool True \<noteq> JUndefined
   \<and> thenDo (where' (Column ''age'') (Some ''>'') (JNum 18) (newQueryBuilder ''users''))
        (orWhere (Column ''vip'') (Some ''='') (JBool True)) =
      Inr ((newQueryBuilder ''users'')\<lparr>whereClauses :=
             [Basic AND ''age'' ''>'' (JNum 18), Basic OR ''vip'' ''='' (JBool True)]\<rparr>)
   \<and> buildWhereClause [Basic AND ''age'' ''>'' (JNum 18), Basic OR ''vip'' ''='' (JBool True)] =
      Inr (''age > OR vip ='', [JNum 18, JBool True])"
  using C3_first_keyword_omitted_later_keywords_rendered
          [where cs = "[Basic AND ''a'' ''IS NULL'' JNull, Group OR [Raw AND ''x = 1'' []]]"
             and d = "Basic OR ''b'' ''IN'' (JArr [JNum 1, JNum 2])"
             and b = OR and b' = AND and column = "''a''" and opr = "''IS NULL''" and v = JNull
             and rest = "[Raw OR ''y'' []]"
             and ?v1.0 = "JNum 18" and ?v2.0 = "JBool True" and ?c1.0 = "''age''"
             and ?c2.0 = "''vip''" and ?o1.0 = "''>''" and ?o2.0 = "''=''" and t = "''users''"]
  by (simp add: operatorPart_def)

section \<open>Query builder: empty callbacks\<close>

text \<open>
  C7. When the callback given to \<open>where\<close> or \<open>orWhere\<close> returns with the nested builder's
  group still empty, the builder is left as it was, so it compiles to the same SQL and
  parameters as without the call. When the group is not empty, a group node with the
  method's keyword is added, and only then.
\<close>

theorem C7_empty_callback_contributes_nothing:
  "(callback ((newQueryBuilder (tableName this))\<lparr>currentWhereGroup := Some []\<rparr>) = Inr nested
      \<and> currentWhereGroup nested = Some [] \<longrightarrow>
      where' (Callback callback) operator val this = Inr this
      \<and> orWhere (Callback callback) operator val this = Inr this
      \<and> thenDo (where' (Callback callback) operator val this) (\<lambda>q. fst (buildSql q)) =
          fst (buildSql this)
      \<and> thenDo (orWhere (Callback callback) operator val this) (\<lambda>q. fst (buildSql q)) =
          fst (buildSql this))
   \<and> (callback ((newQueryBuilder (tableName this))\<lparr>currentWhereGroup := Some []\<rparr>) = Inr nested
      \<and> currentWhereGroup nested = Some g \<and> g \<noteq> [] \<longrightarrow>
      where' (Callback callback) operator val this = Inr (addWhere (Group AND g) this)
      \<and> orWhere (Callback callback) operator val this = Inr (addWhere (Group OR g) this))"
  by (simp add: where'_def orWhere_def)

theorem C7_witness:
  "(\<lambda>q. Inr (limit 5 q)) ((newQueryBuilder (tableName (whereNull ''a'' (newQueryBuilder ''t''))))
       \<lparr>currentWhereGroup := Some []\<rparr>) =
     Inr (limit 5 ((newQueryBuilder ''t'')\<lparr>currentWhereGroup := Some []\<rparr>))
   \<and> currentWhereGroup (limit 5 ((newQueryBuilder ''t'')\<lparr>currentWhereGroup := Some []\<rparr>)) = Some []
   \<and> where' (Callback (\<lambda>q. Inr (limit 5 q))) None JUndefined (whereNull ''a'' (newQueryBuilder ''t''))
       = Inr (whereNull ''a'' (newQueryBuilder ''t''))
   \<and> thenDo (orWhere (Callback (\<lambda>q. Inr (limit 5 q))) None JUndefined
               (whereNull ''a'' (newQueryBuilder ''t''))) (\<lambda>q. fst (buildSql q)) =
       Inr (''SELECT * FROM t WHERE a IS NULL'', [])
   \<and> (\<lambda>q. Inr (whereNull ''b'' q)) ((newQueryBuilder (tableName (newQueryBuilder ''t'')))
       \<lparr>currentWhereGroup := Some []\<rparr>) =
     Inr ((newQueryBuilder ''t'')\<lparr>currentWhereGroup := Some [Basic AND ''b'' ''IS NULL'' JNull]\<rparr>)
   \<and> [Basic AND ''b'' ''IS NULL'' JNull] \<noteq> []
   \<and> where' (Callback (\<lambda>q. Inr (whereNull ''b'' q))) None JUndefined (newQueryBuilder ''t'') =
       Inr ((newQueryBuilder ''t'')\<lparr>whereClauses := [Group AND [Basic AND ''b'' ''IS NULL'' JNull]]\<rparr>)"
  using C7_empty_callback_contributes_nothing
          [where callback = "\<lambda>q. Inr (limit 5 q)" and this = "whereNull ''a'' (newQueryBuilder ''t'')"
             and nested = "limit 5 ((newQueryBuilder ''t'')\<lparr>currentWhereGroup := Some []\<rparr>)"
             and operator = None and val = JUndefined and g = "[]"]
        C7_empty_callback_contributes_nothing
          [where callback = "\<lambda>q. Inr (whereNull ''b'' q)" and this = "newQueryBuilder ''t''"
             and nested = "(newQueryBuilder ''t'')\<lparr>currentWhereGroup := Some [Basic AND ''b'' ''IS NULL'' JNull]\<rparr>"
             and operator = None and val = JUndefined and g = "[Basic AND ''b'' ''IS NULL'' JNull]"]
  by (simp add: limit_def whereNull_def addWhere_def newQueryBuilder_def buildSql_def operatorPart_def)

section \<open>Helper lemmas: compilation on the store\<close>

lemma ub_refl [simp]: "unchangedBelow n h h"
  by (simp add: unchangedBelow_def)

lemma ub_trans: "unchangedBelow n h h1 \<Longrightarrow> unchangedBelow n h1 h2 \<Longrightarrow> unchangedBelow n h h2"
  by (simp add: unchangedBelow_def)

lemma ub_alloc:
  "unchangedBelow n h0 h \<Longrightarrow> n \<le> length h0 \<Longrightarrow> unchangedBelow n h0 (h @ [c])"
  by (auto simp: unchangedBelow_def)

lemma ub_push:
  "push a vs h = Inr h' \<Longrightarrow> unchangedBelow n h0 h \<Longrightarrow> n \<le> a \<Longrightarrow> unchangedBelow n h0 h'"
  by (auto simp: unchangedBelow_def push_def split: option.splits cell.splits)

lemma fr_pushing:
  "unchangedBelow n h0 h \<Longrightarrow> n \<le> a \<Longrightarrow> unchangedBelow n h0 (snd (pushing a vs h))"
  by (auto simp: pushing_def split: sum.splits dest: ub_push)

lemma fr_reading: "unchangedBelow n h0 h \<Longrightarrow> unchangedBelow n h0 (snd (reading r h))"
  by (simp add: reading_def)

lemma fr_thenRun:
  assumes "unchangedBelow n h0 (snd m)"
    and "\<And>x h1. unchangedBelow n h0 h1 \<Longrightarrow> unchangedBelow n h0 (snd (f x h1))"
  shows "unchangedBelow n h0 (snd (thenRun m f))"
  using assms by (cases m) (auto simp: thenRun_def split: sum.splits)

lemma basicStore_frame:
  "unchangedBelow n h0 h \<Longrightarrow> n \<le> parts \<Longrightarrow> n \<le> params \<Longrightarrow>
   unchangedBelow n h0 (snd (basicStore fs boolean parts params h))"
  unfolding basicStore_def
  by (auto intro!: fr_thenRun fr_pushing fr_reading split: prod.splits)

lemma groupStore_frame:
  "unchangedBelow n h0 h \<Longrightarrow> n \<le> parts \<Longrightarrow> n \<le> params \<Longrightarrow>
   unchangedBelow n h0 (snd (groupStore boolean nestedSql nestedParams parts params h))"
  unfolding groupStore_def
  by (auto intro!: fr_thenRun fr_pushing fr_reading split: prod.splits)

lemma rawStore_frame:
  "unchangedBelow n h0 h \<Longrightarrow> n \<le> parts \<Longrightarrow> n \<le> params \<Longrightarrow>
   unchangedBelow n h0 (snd (rawStore fs boolean parts params h))"
  unfolding rawStore_def
  by (auto intro!: fr_thenRun fr_pushing fr_reading split: prod.splits)

lemma where_frame:
  "unchangedBelow n h0 h \<Longrightarrow> n \<le> length h0 \<Longrightarrow>
     unchangedBelow n h0 (snd (buildWhereClauseStore depth clauses h))"
  "unchangedBelow n h0 h \<Longrightarrow> n \<le> length h0 \<Longrightarrow> n \<le> parts \<Longrightarrow> n \<le> params \<Longrightarrow>
     unchangedBelow n h0 (snd (forEachClauseStore depth index cs parts params h))"
  "unchangedBelow n h0 h \<Longrightarrow> n \<le> length h0 \<Longrightarrow> n \<le> parts \<Longrightarrow> n \<le> params \<Longrightarrow>
     unchangedBelow n h0 (snd (clauseStore depth index clause parts params h))"
proof (induction depth clauses h and depth index cs parts params h
         and depth index clause parts params h
       arbitrary: and and
       rule: buildWhereClauseStore_forEachClauseStore_clauseStore.induct)
  case (1 clauses h)
  then show ?case by simp
next
  case (2 depth clauses h)
  let ?h2 = "h @ [Arr []] @ [Arr []]"
  have len: "n \<le> length h" "n \<le> Suc (length h)"
    using "2.prems" by (auto simp: unchangedBelow_def)
  have u2: "unchangedBelow n h0 (h @ [Arr [], Arr []])"
    using "2.prems" by (auto simp: unchangedBelow_def)
  show ?case
  proof (cases "getArr (h @ [Arr [], Arr []]) clauses")
    case (Inl e)
    then show ?thesis using u2 by (simp add: alloc_def)
  next
    case (Inr cs)
    have "unchangedBelow n h0 (snd (forEachClauseStore depth 0 cs (length h) (Suc (length h))
              (h @ [Arr [], Arr []])))"
      using "2.IH"[of "length h" "h @ [Arr []]" "Suc (length h)" "h @ [Arr [], Arr []]" cs]
        Inr u2 "2.prems"(2) len
      by (simp add: alloc_def)
    then show ?thesis using Inr
      by (auto simp: alloc_def split: prod.splits sum.splits)
  qed
next
  case (3 depth index parts params h)
  then show ?case by simp
next
  case (4 depth index c cs parts params h)
  have a: "unchangedBelow n h0 (snd (clauseStore depth index c parts params h))"
    using "4.IH"(1) "4.prems" by simp
  show ?case
  proof (cases "clauseStore depth index c parts params h")
    case (Pair r h')
    show ?thesis
    proof (cases r)
      case (Inl e)
      then show ?thesis using a Pair by simp
    next
      case (Inr u)
      have "unchangedBelow n h0 (snd (forEachClauseStore depth (Suc index) cs parts params h'))"
        using "4.IH"(2)[OF Pair[symmetric] Inr] a Pair "4.prems" by simp
      then show ?thesis using Pair Inr by simp
    qed
  qed
next
  case (5 depth index clause parts params h)
  show ?case
  proof (cases "clauseHeader h index clause")
    case (Inl e)
    then show ?thesis using "5.prems" by simp
  next
    case (Inr x)
    obtain fs boolean where x: "x = (fs, boolean)" by (cases x)
    consider (basic) "field fs ''type'' = HStr ''basic''"
      | (group) "field fs ''type'' \<noteq> HStr ''basic''" "field fs ''type'' = HStr ''group''"
      | (raw) "field fs ''type'' \<noteq> HStr ''basic''" "field fs ''type'' \<noteq> HStr ''group''"
              "field fs ''type'' = HStr ''raw''"
      | (other) "field fs ''type'' \<noteq> HStr ''basic''" "field fs ''type'' \<noteq> HStr ''group''"
              "field fs ''type'' \<noteq> HStr ''raw''"
      by blast
    then show ?thesis
    proof cases
      case basic
      then show ?thesis using Inr x "5.prems" by (simp add: basicStore_frame)
    next
      case group
      have n: "unchangedBelow n h0 (snd (buildWhereClauseStore depth (field fs ''clauses'') h))"
        using "5.IH"[OF Inr x[symmetric]] group "5.prems" by simp
      show ?thesis
      proof (cases "buildWhereClauseStore depth (field fs ''clauses'') h")
        case (Pair r h')
        then show ?thesis using n Inr x group "5.prems"
          by (cases r) (auto simp: groupStore_frame)
      qed
    next
      case raw
      then show ?thesis using Inr x "5.prems" by (simp add: rawStore_frame)
    next
      case other
      then show ?thesis using Inr x "5.prems" by simp
    qed
  qed
qed

lemma ub_length: "unchangedBelow n h h' \<Longrightarrow> length h \<le> length h'"
  by (simp add: unchangedBelow_def)

lemma ub_weaken:
  assumes "unchangedBelow n h h'" and "m \<le> n"
  shows "unchangedBelow m h h'"
proof -
  have "take m (take n h') = take m (take n h)"
    using assms(1) by (simp add: unchangedBelow_def)
  then have "take m h' = take m h" using assms(2) by (simp add: min_absorb1)
  with assms(1) show ?thesis by (simp add: unchangedBelow_def)
qed

lemma ub_append: "unchangedBelow (length h0) h0 h \<Longrightarrow> h = h0 @ drop (length h0) h"
  by (auto simp: unchangedBelow_def) (metis append_take_drop_id)

lemma ub_of_take: "take (length h0) h = h0 \<Longrightarrow> unchangedBelow (length h0) h0 h"
  by (auto simp: unchangedBelow_def) (metis length_take min.cobounded1)

lemma cellAt_append: "cellAt h a = Some c \<Longrightarrow> cellAt (h @ ext) a = Some c"
  by (auto simp: cellAt_def nth_append split: if_splits)

lemma cellAt_ub:
  "unchangedBelow (length h0) h0 h \<Longrightarrow> cellAt h0 a = Some c \<Longrightarrow> cellAt h a = Some c"
  using cellAt_append[of h0 a c "drop (length h0) h"] ub_append[of h0 h] by simp

lemma cellAt_less: "cellAt h a = Some c \<Longrightarrow> a < length h"
  by (auto simp: cellAt_def split: if_splits)

lemma cellAt_update:
  "a < length h \<Longrightarrow> cellAt (h[a := c]) b = (if b = a then Some c else cellAt h b)"
  by (auto simp: cellAt_def)

lemma cellAt_alloc:
  "cellAt (h @ [c]) b = (if b = length h then Some c else cellAt h b)"
  by (auto simp: cellAt_def nth_append)

lemma push_Arr:
  "cellAt h a = Some (Arr xs) \<Longrightarrow> push a vs h = Inr (h[a := Arr (xs @ vs)])"
  by (simp add: push_def)

lemma pushing_Arr:
  "cellAt h a = Some (Arr xs) \<Longrightarrow> pushing a vs h = (Inr (), h[a := Arr (xs @ vs)])"
  by (simp add: pushing_def push_Arr)

lemma ub_update:
  "unchangedBelow n h0 h \<Longrightarrow> n \<le> a \<Longrightarrow> unchangedBelow n h0 (h[a := c])"
  by (auto simp: unchangedBelow_def)

lemma getObj_ub:
  "unchangedBelow (length h0) h0 h \<Longrightarrow> getObj h0 v = Inr fs \<Longrightarrow> getObj h v = Inr fs"
  by (auto simp: getObj_def split: hval.splits option.splits cell.splits dest: cellAt_ub)

lemma getArr_ub:
  "unchangedBelow (length h0) h0 h \<Longrightarrow> getArr h0 v = Inr xs \<Longrightarrow> getArr h v = Inr xs"
  by (auto simp: getArr_def split: hval.splits option.splits cell.splits dest: cellAt_ub)

lemma getStrings_ub:
  "unchangedBelow (length h0) h0 h \<Longrightarrow> getStrings h0 v = Inr xs \<Longrightarrow> getStrings h v = Inr xs"
  by (cases "getArr h0 v") (auto simp: getStrings_def dest: getArr_ub)

lemma spreadOrEmpty_ub:
  "unchangedBelow (length h0) h0 h \<Longrightarrow> spreadOrEmpty h0 v = Inr xs \<Longrightarrow> spreadOrEmpty h v = Inr xs"
  by (auto simp: spreadOrEmpty_def split: hval.splits option.splits cell.splits dest: cellAt_ub)

lemma thisField_ub:
  "unchangedBelow (length h0) h0 h \<Longrightarrow> thisField h0 this k = Inr v \<Longrightarrow> thisField h this k = Inr v"
  by (cases "getObj h0 this") (auto simp: thisField_def dest: getObj_ub)

lemma readValue_append:
  "readValue depth h v = Inr j \<Longrightarrow> readValue depth (h @ ext) v = Inr j"
  and readValues_append:
  "readValues depth h vs = Inr js \<Longrightarrow> readValues depth (h @ ext) vs = Inr js"
proof (induction depth h v and depth h vs arbitrary: j and js rule: readValue_readValues.induct)
  case (7 depth h a)
  from "7.prems" obtain xs where c: "cellAt h a = Some (Arr xs)"
    by (auto split: option.splits cell.splits)
  with "7.prems" obtain ys where ys: "readValues depth h xs = Inr ys" "j = JArr ys"
    by (auto split: sum.splits)
  from "7.IH"[OF c refl ys(1)] have "readValues depth (h @ ext) xs = Inr ys" .
  moreover have "cellAt (h @ ext) a = Some (Arr xs)" using c by (rule cellAt_append)
  ultimately show ?case using ys by simp
next
  case (9 depth h v vs)
  from "9.prems" obtain j0 js0 where p: "readValue depth h v = Inr j0"
      "readValues depth h vs = Inr js0" "js = j0 # js0"
    by (auto split: sum.splits)
  from "9.IH"(1)[OF p(1)] "9.IH"(2)[OF p(1) p(2)] p(3) show ?case by simp
qed simp_all

lemma readValue_ub:
  "unchangedBelow (length h0) h0 h \<Longrightarrow> readValue d h0 v = Inr j \<Longrightarrow> readValue d h v = Inr j"
  using readValue_append[of d h0 v j "drop (length h0) h"] ub_append[of h0 h] by simp

lemma readValues_ub:
  "unchangedBelow (length h0) h0 h \<Longrightarrow> readValues d h0 vs = Inr js \<Longrightarrow> readValues d h vs = Inr js"
  using readValues_append[of d h0 vs js "drop (length h0) h"] ub_append[of h0 h] by simp

lemma readValue_deeper:
  "readValue depth h v = Inr j \<Longrightarrow> readValue (Suc depth) h v = Inr j"
  and readValues_deeper:
  "readValues depth h vs = Inr js \<Longrightarrow> readValues (Suc depth) h vs = Inr js"
proof (induction depth h v and depth h vs arbitrary: j and js rule: readValue_readValues.induct)
  case (7 depth h a)
  from "7.prems" obtain xs where c: "cellAt h a = Some (Arr xs)"
    by (auto split: option.splits cell.splits)
  with "7.prems" obtain ys where ys: "readValues depth h xs = Inr ys" "j = JArr ys"
    by (auto split: sum.splits)
  from "7.IH"[OF c refl ys(1)] have "readValues (Suc depth) h xs = Inr ys" .
  then show ?case using c ys by simp
next
  case (9 depth h v vs)
  from "9.prems" obtain j0 js0 where p: "readValue depth h v = Inr j0"
      "readValues depth h vs = Inr js0" "js = j0 # js0"
    by (auto split: sum.splits)
  from "9.IH"(1)[OF p(1)] "9.IH"(2)[OF p(1) p(2)] p(3) show ?case by simp
qed simp_all

lemma readValues_length: "readValues d h vs = Inr js \<Longrightarrow> length js = length vs"
  by (induction vs arbitrary: js) (auto split: sum.splits)

lemma readValues_nth:
  "readValues d h vs = Inr js \<Longrightarrow> i < length vs \<Longrightarrow> readValue d h (vs ! i) = Inr (js ! i)"
  by (induction vs arbitrary: js i) (auto split: sum.splits simp: nth_Cons split: nat.splits)

lemma readValues_app:
  "readValues d h vs = Inr js \<Longrightarrow> readValues d h ws = Inr ks \<Longrightarrow>
   readValues d h (vs @ ws) = Inr (js @ ks)"
  by (induction vs arbitrary: js) (auto split: sum.splits)

lemma readValues_single: "readValue d h v = Inr j \<Longrightarrow> readValues d h [v] = Inr [j]"
  by simp

lemma asStrings_HStr [simp]: "asStrings (map HStr xs) = Inr xs"
  by (induction xs) (auto simp: asString_def)

lemma getStrings_Arr:
  "cellAt h a = Some (Arr (map HStr xs)) \<Longrightarrow> getStrings h (HRef a) = Inr xs"
  by (simp add: getStrings_def getArr_def)

lemma thenRun_simps [simp]:
  "thenRun (Inl e, h) f = (Inl e, h)" "thenRun (Inr x, h) f = f x h"
  by (simp_all add: thenRun_def)

lemma readValue_HRef:
  assumes "readValue vd h (HRef a) = Inr v"
  obtains d xs js where "vd = Suc d" "cellAt h a = Some (Arr xs)"
    "readValues d h xs = Inr js" "v = JArr js"
proof (cases vd)
  case 0
  with assms show ?thesis by simp
next
  case (Suc d)
  with assms obtain xs where c: "cellAt h a = Some (Arr xs)"
    by (auto split: option.splits cell.splits)
  with assms Suc obtain js where "readValues d h xs = Inr js" "v = JArr js"
    by (auto split: sum.splits)
  with Suc c show ?thesis by (rule that)
qed

lemma index_refines:
  assumes ub: "unchangedBelow (length h0) h0 h" and v: "readValue vd h0 hv = Inr v"
  shows "(\<forall>e. js_index v i = Inl e \<longrightarrow> indexStore h hv i = Inl e)
       \<and> (\<forall>x. js_index v i = Inr x \<longrightarrow>
            (\<exists>y. indexStore h hv i = Inr y \<and> readValue vd h0 y = Inr x))"
proof (cases hv)
  case (HRef a)
  from v[unfolded HRef] obtain d xs js where r: "vd = Suc d" "cellAt h0 a = Some (Arr xs)"
    "readValues d h0 xs = Inr js" "v = JArr js"
    by (rule readValue_HRef)
  have c: "cellAt h a = Some (Arr xs)" using ub r(2) by (rule cellAt_ub)
  have len: "length js = length xs" using r(3) by (rule readValues_length)
  show ?thesis
  proof (cases "i < length xs")
    case True
    have "readValue d h0 (xs ! i) = Inr (js ! i)" using r(3) True by (rule readValues_nth)
    then have "readValue vd h0 (xs ! i) = Inr (js ! i)"
      unfolding r(1) by (rule readValue_deeper)
    then show ?thesis using True len c r(4) HRef by (simp add: indexStore_def)
  next
    case False
    then show ?thesis using len c r(4) HRef by (simp add: indexStore_def)
  qed
qed (use v in \<open>auto simp: indexStore_def\<close>)

lemma operatorPartStore_refines:
  assumes ub: "unchangedBelow (length h0) h0 h" and v: "readValue vd h0 hv = Inr v"
  shows "(\<forall>e. operatorPart opr v = Inl e \<longrightarrow> operatorPartStore h (HStr opr) hv = Inl e)
       \<and> (\<forall>opPart ps. operatorPart opr v = Inr (opPart, ps) \<longrightarrow>
            (\<exists>vs. operatorPartStore h (HStr opr) hv = Inr (opPart, vs)
                  \<and> readValues vd h0 vs = Inr ps))"
proof -
  have optext: "asText (HStr opr) = Inr opr" by (simp add: asText_def)
  have inj: "\<And>s. (HStr opr = HStr s) = (opr = s)" by simp
  define A where "A \<longleftrightarrow> opr = ''IN'' \<or> opr = ''NOT IN''"
  define B where "B \<longleftrightarrow> opr = ''BETWEEN'' \<or> opr = ''NOT BETWEEN''"
  define C where "C \<longleftrightarrow> opr = ''IS NULL'' \<or> opr = ''IS NOT NULL''"
  have "A \<or> (\<not> A \<and> B) \<or> (\<not> A \<and> \<not> B \<and> C) \<or> (\<not> A \<and> \<not> B \<and> \<not> C)" by blast
  then consider (isin) "A" | (between) "\<not> A" "B" | (null) "\<not> A" "\<not> B" "C"
    | (other) "\<not> A" "\<not> B" "\<not> C"
    by blast
  then show ?thesis
  proof cases
    case isin
    note isin = isin[unfolded A_def B_def C_def]
    have p: "operatorPart opr v = (case v of
           JArr vs \<Rightarrow> Inr (opr @ '' ('' @ js_join '', '' (map (\<lambda>x. ''?'') vs) @ '')'', vs)
         | _ \<Rightarrow> Inl TypeError)" for v
      by (simp only: operatorPart_def if_P[OF isin])
    have s: "operatorPartStore h (HStr opr) hv = thenDo (mapArg h hv) (\<lambda>xs.
          Inr (opr @ '' ('' @ js_join '', '' (map (\<lambda>x. ''?'') xs) @ '')'', xs))" for hv
      by (simp only: operatorPartStore_def inj if_P[OF isin] optext thenDo_def sum.case)
    show ?thesis
    proof (cases hv)
      case (HRef a)
      from v[unfolded HRef] obtain d xs js where r: "vd = Suc d" "cellAt h0 a = Some (Arr xs)"
        "readValues d h0 xs = Inr js" "v = JArr js"
        by (rule readValue_HRef)
      have c: "cellAt h a = Some (Arr xs)" using ub r(2) by (rule cellAt_ub)
      have len: "length js = length xs" using r(3) by (rule readValues_length)
      have q: "map (\<lambda>x. ''?'') xs = map (\<lambda>x. ''?'') js"
        using len by (simp add: map_replicate_const)
      have deep: "readValues vd h0 xs = Inr js" unfolding r(1) using r(3) by (rule readValues_deeper)
      have m: "mapArg h (HRef a) = Inr xs" using c by (simp add: mapArg_def)
      show ?thesis
        using q deep by (simp add: p s m r(4) HRef thenDo_def)
    qed (use v in \<open>auto simp: p s mapArg_def thenDo_def\<close>)
  next
    case between
    note between = between[unfolded A_def B_def C_def]
    have p: "operatorPart opr v = (case js_index v 0 of
           Inl e \<Rightarrow> Inl e
         | Inr lo \<Rightarrow>
             (case js_index v 1 of
                Inl e \<Rightarrow> Inl e
              | Inr hi \<Rightarrow> Inr (opr @ '' ? AND ?'', [lo, hi])))"
      by (simp only: operatorPart_def if_not_P[OF between(1)] if_P[OF between(2)])
    have s: "operatorPartStore h (HStr opr) hv =
        thenDo (indexStore h hv 0) (\<lambda>lo.
        thenDo (indexStore h hv 1) (\<lambda>hi.
          Inr (opr @ '' ? AND ?'', [lo, hi])))"
      by (simp only: operatorPartStore_def inj if_not_P[OF between(1)] if_P[OF between(2)]
            optext thenDo_def sum.case)
    note i0 = index_refines[OF ub v, of 0] and i1 = index_refines[OF ub v, of 1]
    show ?thesis
    proof (cases "js_index v 0")
      case (Inl e)
      with i0 have "indexStore h hv 0 = Inl e" by blast
      then show ?thesis unfolding p s Inl by (simp add: thenDo_def)
    next
      case lo: (Inr lo)
      from i0 lo obtain y0 where y0: "indexStore h hv 0 = Inr y0" "readValue vd h0 y0 = Inr lo"
        by blast
      show ?thesis
      proof (cases "js_index v 1")
        case (Inl e)
        with i1 have "indexStore h hv 1 = Inl e" by blast
        then show ?thesis unfolding p s lo Inl y0(1) by (simp add: thenDo_def)
      next
        case hi: (Inr hi)
        from i1 hi obtain y1 where y1: "indexStore h hv 1 = Inr y1" "readValue vd h0 y1 = Inr hi"
          by blast
        show ?thesis unfolding p s lo hi y0(1) y1(1) using y0(2) y1(2) by (simp add: thenDo_def)
      qed
    qed
  next
    case null
    note null = null[unfolded A_def B_def C_def]
    have p: "operatorPart opr v = Inr (opr, [])"
      by (simp only: operatorPart_def if_not_P[OF null(1)] if_not_P[OF null(2)] if_P[OF null(3)])
    have s: "operatorPartStore h (HStr opr) hv = Inr (opr, [])"
      by (simp only: operatorPartStore_def inj if_not_P[OF null(1)] if_not_P[OF null(2)]
            if_P[OF null(3)] optext thenDo_def sum.case)
    show ?thesis unfolding p s by simp
  next
    case other
    note other = other[unfolded A_def B_def C_def]
    have p: "operatorPart opr v = Inr (opr, [v])"
      by (simp only: operatorPart_def if_not_P[OF other(1)] if_not_P[OF other(2)]
            if_not_P[OF other(3)])
    have s: "operatorPartStore h (HStr opr) hv = Inr (opr, [hv])"
      by (simp only: operatorPartStore_def inj if_not_P[OF other(1)] if_not_P[OF other(2)]
            if_not_P[OF other(3)] optext thenDo_def sum.case)
    show ?thesis unfolding p s using v by simp
  qed
qed

lemma asBoolean_text: "asBoolean v = Inr b \<Longrightarrow> asText v = Inr (booleanStr b)"
  by (auto simp: asBoolean_def asText_def split: if_splits)

lemma asString_text: "asString v = Inr s \<Longrightarrow> asText v = Inr s"
  by (auto simp: asString_def asText_def split: hval.splits)

lemma asString_HStr: "asString v = Inr s \<Longrightarrow> v = HStr s"
  by (auto simp: asString_def split: hval.splits)

lemma basicStore_refines:
  assumes ub: "unchangedBelow (length h0) h0 h"
    and parts: "cellAt h parts = Some (Arr P)" and params: "cellAt h params = Some (Arr Q)"
    and ne: "parts \<noteq> params"
    and rb: "readBasic vd h0 fs b = Inr cl"
  shows "\<exists>column opr v. cl = Basic b column opr v
       \<and> (\<forall>e. operatorPart opr v = Inl e \<longrightarrow> fst (basicStore fs pre parts params h) = Inl e)
       \<and> (\<forall>opPart ps. operatorPart opr v = Inr (opPart, ps) \<longrightarrow>
            (\<exists>vs. basicStore fs pre parts params h =
                    (Inr (), h[params := Arr (Q @ vs),
                               parts := Arr (P @ [HStr (pre @ column @ '' '' @ opPart)])])
                  \<and> readValues vd h0 vs = Inr ps))"
proof -
  from rb obtain column opr v where f: "asString (field fs ''column'') = Inr column"
    "asString (field fs ''operator'') = Inr opr" "readValue vd h0 (field fs ''value'') = Inr v"
    "cl = Basic b column opr v"
    by (auto simp: readBasic_def thenDo_def split: sum.splits)
  note op = operatorPartStore_refines[OF ub f(3), of opr]
  have o: "field fs ''operator'' = HStr opr" using f(2) by (rule asString_HStr)
  have ct: "asText (field fs ''column'') = Inr column" using f(1) by (rule asString_text)
  have pl: "params < length h" "parts < length h"
    using params parts by (auto dest: cellAt_less)
  have a: "\<forall>e. operatorPart opr v = Inl e \<longrightarrow> fst (basicStore fs pre parts params h) = Inl e"
    using op by (auto simp: basicStore_def o reading_def)
  have b: "\<forall>opPart ps. operatorPart opr v = Inr (opPart, ps) \<longrightarrow>
            (\<exists>vs. basicStore fs pre parts params h =
                    (Inr (), h[params := Arr (Q @ vs),
                               parts := Arr (P @ [HStr (pre @ column @ '' '' @ opPart)])])
                  \<and> readValues vd h0 vs = Inr ps)"
  proof (intro allI impI)
    fix opPart ps assume "operatorPart opr v = Inr (opPart, ps)"
    with op obtain vs where vs: "operatorPartStore h (HStr opr) (field fs ''value'') = Inr (opPart, vs)"
      "readValues vd h0 vs = Inr ps" by blast
    have p2: "cellAt (h[params := Arr (Q @ vs)]) parts = Some (Arr P)"
      using parts ne pl by (simp add: cellAt_update)
    have "basicStore fs pre parts params h =
            (Inr (), h[params := Arr (Q @ vs),
                       parts := Arr (P @ [HStr (pre @ column @ '' '' @ opPart)])])"
      by (simp add: basicStore_def o vs(1) reading_def pushing_Arr[OF params] ct
            pushing_Arr[OF p2])
    with vs(2) show "\<exists>vs. basicStore fs pre parts params h =
                    (Inr (), h[params := Arr (Q @ vs),
                               parts := Arr (P @ [HStr (pre @ column @ '' '' @ opPart)])])
                  \<and> readValues vd h0 vs = Inr ps" by blast
  qed
  from f(4) a b show ?thesis by blast
qed

lemma rawStore_refines:
  assumes ub: "unchangedBelow (length h0) h0 h"
    and parts: "cellAt h parts = Some (Arr P)" and params: "cellAt h params = Some (Arr Q)"
    and ne: "parts \<noteq> params" and fresh: "length h0 \<le> parts"
    and rr: "readRaw vd h0 fs b = Inr cl"
  shows "\<exists>sql ps vs. cl = Raw b sql ps
       \<and> rawStore fs pre parts params h =
            (Inr (), h[parts := Arr (P @ [HStr (pre @ ''('' @ sql @ '')'')]),
                       params := Arr (Q @ vs)])
       \<and> readValues vd h0 vs = Inr ps"
proof -
  from rr obtain sql vs ps where f: "asString (field fs ''sql'') = Inr sql"
    "spreadOrEmpty h0 (field fs ''params'') = Inr vs" "readValues vd h0 vs = Inr ps"
    "cl = Raw b sql ps"
    by (auto simp: readRaw_def thenDo_def split: sum.splits)
  have st: "asText (field fs ''sql'') = Inr sql" using f(1) by (rule asString_text)
  have pl: "params < length h" "parts < length h"
    using params parts by (auto dest: cellAt_less)
  let ?h1 = "h[parts := Arr (P @ [HStr (pre @ ''('' @ sql @ '')'')])]"
  have ub1: "unchangedBelow (length h0) h0 ?h1" using ub fresh by (rule ub_update)
  have sp: "spreadOrEmpty ?h1 (field fs ''params'') = Inr vs" using ub1 f(2) by (rule spreadOrEmpty_ub)
  have p2: "cellAt ?h1 params = Some (Arr Q)"
    using params ne pl by (simp add: cellAt_update)
  have "rawStore fs pre parts params h = (Inr (), ?h1[params := Arr (Q @ vs)])"
    by (simp add: rawStore_def st reading_def pushing_Arr[OF parts] sp[simplified]
          pushing_Arr[OF p2, simplified])
  with f(3,4) show ?thesis by blast
qed

lemma groupStore_result:
  assumes parts: "cellAt h parts = Some (Arr P)" and params: "cellAt h params = Some (Arr Q)"
    and nested: "cellAt h p = Some (Arr vs)"
    and ne: "parts \<noteq> params" "p \<noteq> parts"
  shows "groupStore pre sql p parts params h =
           (Inr (), h[parts := Arr (P @ [HStr (pre @ ''('' @ sql @ '')'')]),
                      params := Arr (Q @ vs)])"
proof -
  have pl: "params < length h" "parts < length h" "p < length h"
    using params parts nested by (auto dest: cellAt_less)
  let ?h1 = "h[parts := Arr (P @ [HStr (pre @ ''('' @ sql @ '')'')])]"
  have p2: "cellAt ?h1 params = Some (Arr Q)" using params ne pl by (simp add: cellAt_update)
  have p3: "getArr ?h1 (HRef p) = Inr vs" using nested ne pl by (simp add: getArr_def cellAt_update)
  show ?thesis
    by (simp add: groupStore_def reading_def pushing_Arr[OF parts] p3[simplified]
          pushing_Arr[OF p2, simplified])
qed

lemma clauseHeader_read:
  assumes ub: "unchangedBelow (length h0) h0 h"
    and obj: "getObj h0 c = Inr fs" and b: "asBoolean (field fs ''boolean'') = Inr b"
  shows "clauseHeader h index c = Inr (fs, if index = 0 then [] else booleanStr b @ '' '')"
  using getObj_ub[OF ub obj] asBoolean_text[OF b] by (simp add: clauseHeader_def thenDo_def)

lemma where_refines:
  "unchangedBelow (length h0) h0 h \<Longrightarrow> readClauseArray depth vd h0 clauses = Inr cls \<Longrightarrow>
     (\<forall>e. buildWhereClause cls = Inl e \<longrightarrow>
          fst (buildWhereClauseStore depth clauses h) = Inl e)
   \<and> (\<forall>sql ps. buildWhereClause cls = Inr (sql, ps) \<longrightarrow>
          (\<exists>p vs. fst (buildWhereClauseStore depth clauses h) = Inr (sql, p)
               \<and> length h \<le> p
               \<and> cellAt (snd (buildWhereClauseStore depth clauses h)) p = Some (Arr vs)
               \<and> readValues vd h0 vs = Inr ps))"
  "unchangedBelow (length h0) h0 h \<Longrightarrow> readClauses depth vd h0 cs = Inr cls \<Longrightarrow>
   length h0 \<le> parts \<Longrightarrow> length h0 \<le> params \<Longrightarrow> parts \<noteq> params \<Longrightarrow>
   cellAt h parts = Some (Arr P) \<Longrightarrow> cellAt h params = Some (Arr Q) \<Longrightarrow>
     (\<forall>e. forEachClause index cls = Inl e \<longrightarrow>
          fst (forEachClauseStore depth index cs parts params h) = Inl e)
   \<and> (\<forall>pts ps. forEachClause index cls = Inr (pts, ps) \<longrightarrow>
          (\<exists>vs. fst (forEachClauseStore depth index cs parts params h) = Inr ()
             \<and> cellAt (snd (forEachClauseStore depth index cs parts params h)) parts
                 = Some (Arr (P @ map HStr pts))
             \<and> cellAt (snd (forEachClauseStore depth index cs parts params h)) params
                 = Some (Arr (Q @ vs))
             \<and> readValues vd h0 vs = Inr ps))"
  "unchangedBelow (length h0) h0 h \<Longrightarrow> readClause depth vd h0 clause = Inr cl \<Longrightarrow>
   length h0 \<le> parts \<Longrightarrow> length h0 \<le> params \<Longrightarrow> parts \<noteq> params \<Longrightarrow>
   cellAt h parts = Some (Arr P) \<Longrightarrow> cellAt h params = Some (Arr Q) \<Longrightarrow>
     (\<forall>e. clausePart index cl = Inl e \<longrightarrow>
          fst (clauseStore depth index clause parts params h) = Inl e)
   \<and> (\<forall>pt ps. clausePart index cl = Inr (pt, ps) \<longrightarrow>
          (\<exists>vs. fst (clauseStore depth index clause parts params h) = Inr ()
             \<and> cellAt (snd (clauseStore depth index clause parts params h)) parts
                 = Some (Arr (P @ [HStr pt]))
             \<and> cellAt (snd (clauseStore depth index clause parts params h)) params
                 = Some (Arr (Q @ vs))
             \<and> readValues vd h0 vs = Inr ps))"
proof (induction depth clauses h and depth index cs parts params h
         and depth index clause parts params h
       arbitrary: cls and cls P Q and cl P Q
       rule: buildWhereClauseStore_forEachClauseStore_clauseStore.induct)
  case (1 clauses h)
  then show ?case by simp
next
  case (2 depth clauses h)
  let ?h2 = "h @ [Arr [], Arr []]"
  from "2.prems"(2) obtain cs where cs: "getArr h0 clauses = Inr cs"
    "readClauses depth vd h0 cs = Inr cls"
    by (auto split: sum.splits)
  have len: "length h0 \<le> length h" using "2.prems"(1) by (simp add: unchangedBelow_def)
  have u2: "unchangedBelow (length h0) h0 ?h2"
    using "2.prems"(1) by (auto simp: unchangedBelow_def)
  have g: "getArr ?h2 clauses = Inr cs" using u2 cs(1) by (rule getArr_ub)
  have c1: "cellAt ?h2 (length h) = Some (Arr [])" "cellAt ?h2 (Suc (length h)) = Some (Arr [])"
    by (simp_all add: cellAt_def nth_append)
  let ?X = "forEachClauseStore depth 0 cs (length h) (Suc (length h)) ?h2"
  have ih: "(\<forall>e. forEachClause 0 cls = Inl e \<longrightarrow> fst ?X = Inl e)
   \<and> (\<forall>pts ps. forEachClause 0 cls = Inr (pts, ps) \<longrightarrow>
          (\<exists>vs. fst ?X = Inr ()
             \<and> cellAt (snd ?X) (length h) = Some (Arr ([] @ map HStr pts))
             \<and> cellAt (snd ?X) (Suc (length h)) = Some (Arr ([] @ vs))
             \<and> readValues vd h0 vs = Inr ps))"
    using "2.IH"[of "length h" "h @ [Arr []]" "Suc (length h)" ?h2 cs cls "[]" "[]"]
      g u2 cs(2) len c1
    by (simp add: alloc_def)
  have unf: "buildWhereClauseStore (Suc depth) clauses h =
      (case ?X of
         (Inl e, h3) \<Rightarrow> (Inl e, h3)
       | (Inr u, h3) \<Rightarrow>
           (case getStrings h3 (HRef (length h)) of
              Inl e \<Rightarrow> (Inl e, h3)
            | Inr ps \<Rightarrow> (Inr (js_join '' '' ps, Suc (length h)), h3)))"
    using g by (simp add: alloc_def split: prod.splits sum.splits)
  show ?case
  proof (cases "forEachClause 0 cls")
    case (Inl e)
    with ih have "fst ?X = Inl e" by blast
    then show ?thesis using Inl unf by (cases ?X) simp
  next
    case (Inr r)
    obtain pts ps where r: "r = (pts, ps)" by (cases r)
    from ih Inr r obtain vs where vs: "fst ?X = Inr ()"
      "cellAt (snd ?X) (length h) = Some (Arr (map HStr pts))"
      "cellAt (snd ?X) (Suc (length h)) = Some (Arr vs)"
      "readValues vd h0 vs = Inr ps"
      by auto
    have gs: "getStrings (snd ?X) (HRef (length h)) = Inr pts" using vs(2) by (rule getStrings_Arr)
    have res: "buildWhereClauseStore (Suc depth) clauses h
                 = (Inr (js_join '' '' pts, Suc (length h)), snd ?X)"
      using vs(1) gs unf by (cases ?X) simp
    show ?thesis using Inr r res vs(3,4) by simp
  qed
next
  case (3 depth index parts params h)
  then show ?case by simp
next
  case (4 depth index c cs parts params h)
  from "4.prems"(2) obtain x xs where x: "readClause depth vd h0 c = Inr x"
    "readClauses depth vd h0 cs = Inr xs" "cls = x # xs"
    by (auto split: sum.splits)
  let ?X = "clauseStore depth index c parts params h"
  note ih1 = "4.IH"(1)[OF "4.prems"(1) x(1) "4.prems"(3,4,5,6,7)]
  have fr: "unchangedBelow (length h0) h0 (snd ?X)"
    using "4.prems"(1) _ "4.prems"(3,4) by (rule where_frame(3)) simp
  show ?case
  proof (cases "clausePart index x")
    case (Inl e)
    with ih1 have "fst ?X = Inl e" by blast
    then show ?thesis using Inl x(3) by (cases ?X) simp
  next
    case (Inr r)
    obtain pt ps1 where r: "r = (pt, ps1)" by (cases r)
    from ih1 Inr r obtain vs1 where s1: "fst ?X = Inr ()"
      "cellAt (snd ?X) parts = Some (Arr (P @ [HStr pt]))"
      "cellAt (snd ?X) params = Some (Arr (Q @ vs1))"
      "readValues vd h0 vs1 = Inr ps1"
      by auto
    obtain h' where X: "?X = (Inr (), h')" using s1(1) by (cases ?X) auto
    let ?Y = "forEachClauseStore depth (Suc index) cs parts params h'"
    have eq: "forEachClauseStore depth index (c # cs) parts params h = ?Y" using X by simp
    note ih2 = "4.IH"(2)[OF X[symmetric] refl fr[unfolded X snd_conv] x(2) "4.prems"(3,4,5)
        s1(2)[unfolded X snd_conv] s1(3)[unfolded X snd_conv]]
    show ?thesis
    proof (cases "forEachClause (Suc index) xs")
      case (Inl e)
      with ih2 have "fst ?Y = Inl e" by blast
      then show ?thesis using Inl Inr r x(3) eq by simp
    next
      case rest: (Inr r2)
      obtain pts qs where r2: "r2 = (pts, qs)" by (cases r2)
      from ih2 rest r2 obtain vs2 where s2: "fst ?Y = Inr ()"
        "cellAt (snd ?Y) parts = Some (Arr ((P @ [HStr pt]) @ map HStr pts))"
        "cellAt (snd ?Y) params = Some (Arr ((Q @ vs1) @ vs2))"
        "readValues vd h0 vs2 = Inr qs"
        by auto
      have rv: "readValues vd h0 (vs1 @ vs2) = Inr (ps1 @ qs)" using s1(4) s2(4) by (rule readValues_app)
      show ?thesis using rest r2 Inr r x(3) eq s2(1,2,3) rv by auto
    qed
  qed
next
  case (5 depth index clause parts params h)
  from "5.prems"(2) obtain fs b where f: "getObj h0 clause = Inr fs"
    "asBoolean (field fs ''boolean'') = Inr b"
    by (auto split: sum.splits)
  let ?pre = "if index = 0 then [] else booleanStr b @ '' ''"
  have hd: "clauseHeader h index clause = Inr (fs, ?pre)"
    using "5.prems"(1) f by (rule clauseHeader_read)
  have pl: "params < length h" "parts < length h"
    using "5.prems"(6,7) by (auto dest: cellAt_less)
  consider (basic) "field fs ''type'' = HStr ''basic''"
    | (group) "field fs ''type'' \<noteq> HStr ''basic''" "field fs ''type'' = HStr ''group''"
    | (raw) "field fs ''type'' \<noteq> HStr ''basic''" "field fs ''type'' \<noteq> HStr ''group''"
            "field fs ''type'' = HStr ''raw''"
    | (other) "field fs ''type'' \<noteq> HStr ''basic''" "field fs ''type'' \<noteq> HStr ''group''"
            "field fs ''type'' \<noteq> HStr ''raw''"
    by blast
  then show ?case
  proof cases
    case basic
    have rb: "readBasic vd h0 fs b = Inr cl" using "5.prems"(2) f basic by simp
    have st: "clauseStore depth index clause parts params h = basicStore fs ?pre parts params h"
      using hd basic by simp
    from basicStore_refines[OF "5.prems"(1,6,7,5) rb, of ?pre]
    obtain column opr v where c: "cl = Basic b column opr v"
      "\<forall>e. operatorPart opr v = Inl e \<longrightarrow> fst (basicStore fs ?pre parts params h) = Inl e"
      "\<forall>opPart ps. operatorPart opr v = Inr (opPart, ps) \<longrightarrow>
            (\<exists>vs. basicStore fs ?pre parts params h =
                    (Inr (), h[params := Arr (Q @ vs),
                               parts := Arr (P @ [HStr (?pre @ column @ '' '' @ opPart)])])
                  \<and> readValues vd h0 vs = Inr ps)"
      by blast
    show ?thesis
    proof (cases "operatorPart opr v")
      case (Inl e)
      then show ?thesis using c(1,2) st by simp
    next
      case (Inr r)
      obtain opPart ps where r: "r = (opPart, ps)" by (cases r)
      from c(3) Inr r obtain vs where vs: "basicStore fs ?pre parts params h =
                    (Inr (), h[params := Arr (Q @ vs),
                               parts := Arr (P @ [HStr (?pre @ column @ '' '' @ opPart)])])"
        "readValues vd h0 vs = Inr ps" by blast
      have cp: "clausePart index cl = Inr (?pre @ column @ '' '' @ opPart, ps)"
        using c(1) Inr r by simp
      show ?thesis unfolding st vs(1) cp
        using vs(2) pl "5.prems"(5) by (simp add: cellAt_update)
    qed
  next
    case group
    from "5.prems"(2) f group obtain cls' where g: "readClauseArray depth vd h0 (field fs ''clauses'') = Inr cls'"
      "cl = Group b cls'"
      by (auto split: sum.splits)
    let ?N = "buildWhereClauseStore depth (field fs ''clauses'') h"
    note ih = "5.IH"[OF hd refl group "5.prems"(1) g(1)]
    have st: "clauseStore depth index clause parts params h =
       (case ?N of
          (Inl e, h') \<Rightarrow> (Inl e, h')
        | (Inr (nestedSql, nestedParams), h') \<Rightarrow>
            groupStore ?pre nestedSql nestedParams parts params h')"
      using hd group by simp
    have fr: "unchangedBelow (length h) h (snd ?N)"
      by (rule where_frame(1)) simp_all
    show ?thesis
    proof (cases "buildWhereClause cls'")
      case (Inl e)
      with ih have "fst ?N = Inl e" by blast
      then show ?thesis using Inl g(2) st by (cases ?N) simp
    next
      case (Inr r)
      obtain sql ps where r: "r = (sql, ps)" by (cases r)
      from ih Inr r obtain p vs where n: "fst ?N = Inr (sql, p)" "length h \<le> p"
        "cellAt (snd ?N) p = Some (Arr vs)" "readValues vd h0 vs = Inr ps"
        by auto
      obtain h' where N: "?N = (Inr (sql, p), h')" using n(1) by (cases ?N) auto
      have c': "cellAt h' parts = Some (Arr P)" "cellAt h' params = Some (Arr Q)"
        using fr[unfolded N snd_conv] "5.prems"(6,7) by (auto dest: cellAt_ub)
      have pl': "params < length h'" "parts < length h'"
        using c' by (auto dest: cellAt_less)
      have pne: "p \<noteq> parts" using n(2) pl by simp
      have gr: "groupStore ?pre sql p parts params h' =
           (Inr (), h'[parts := Arr (P @ [HStr (?pre @ ''('' @ sql @ '')'')]),
                      params := Arr (Q @ vs)])"
        using c' n(3)[unfolded N snd_conv] "5.prems"(5) pne by (rule groupStore_result)
      have cp: "clausePart index cl = Inr (?pre @ ''('' @ sql @ '')'', ps)"
        using g(2) Inr r by simp
      show ?thesis unfolding st N cp
        using gr n(4) pl' "5.prems"(5) by (simp add: cellAt_update)
    qed
  next
    case raw
    have rr: "readRaw vd h0 fs b = Inr cl" using "5.prems"(2) f raw by simp
    have st: "clauseStore depth index clause parts params h = rawStore fs ?pre parts params h"
      using hd raw by simp
    from rawStore_refines[OF "5.prems"(1,6,7,5,3) rr, of ?pre]
    obtain sql ps vs where c: "cl = Raw b sql ps"
      "rawStore fs ?pre parts params h =
            (Inr (), h[parts := Arr (P @ [HStr (?pre @ ''('' @ sql @ '')'')]),
                       params := Arr (Q @ vs)])"
      "readValues vd h0 vs = Inr ps"
      by blast
    have cp: "clausePart index cl = Inr (?pre @ ''('' @ sql @ '')'', ps)"
      using c(1) by simp
    show ?thesis unfolding st c(2) cp
      using c(3) pl "5.prems"(5) by (simp add: cellAt_update)
  next
    case other
    then show ?thesis using "5.prems"(2) f by simp
  qed
qed

lemma joinsStore_frame:
  "unchangedBelow n h0 h \<Longrightarrow> n \<le> params \<Longrightarrow>
   unchangedBelow n h0 (snd (joinsStore js params sql h))"
proof (induction js params sql h rule: joinsStore.induct)
  case (1 params sql h)
  then show ?case by simp
next
  case (2 j js params sql h)
  show ?case
  proof (cases "thenDo (getObj h j) (\<lambda>fs.
             thenDo (asText (field fs ''type'')) (\<lambda>ty.
             thenDo (asText (field fs ''table'')) (\<lambda>tb.
             thenDo (asText (field fs ''on'')) (\<lambda>onSql.
             thenDo (getArr h (field fs ''params'')) (\<lambda>vs.
               Inr (sql @ '' '' @ ty @ '' JOIN '' @ tb @ '' ON '' @ onSql, vs))))))")
    case (Inl e)
    then show ?thesis using "2.prems" by simp
  next
    case (Inr r)
    obtain sql' vs where r: "r = (sql', vs)" by (cases r)
    show ?thesis
    proof (cases "push params vs h")
      case (Inl e)
      then show ?thesis using Inr r "2.prems" by simp
    next
      case h': (Inr h')
      have "unchangedBelow n h0 h'" using h' "2.prems" by (rule ub_push)
      then have "unchangedBelow n h0 (snd (joinsStore js params sql' h'))"
        using "2.IH"[OF Inr r[symmetric] h'] "2.prems"(2) by simp
      then show ?thesis using Inr r h' by simp
    qed
  qed
qed

lemma havingStore_frame:
  "unchangedBelow n h0 h \<Longrightarrow> n \<le> params \<Longrightarrow> n \<le> havingParts \<Longrightarrow>
   unchangedBelow n h0 (snd (havingStore cs params havingParts h))"
proof (induction cs params havingParts h rule: havingStore.induct)
  case (1 params havingParts h)
  then show ?case by simp
next
  case (2 c cs params havingParts h)
  let ?S = "thenRun (reading (getObj h c) h) (\<lambda>fs h.
             thenRun (pushing params [field fs ''value''] h) (\<lambda>u h.
             thenRun (reading (asText (field fs ''column'')) h) (\<lambda>column h.
             thenRun (reading (asText (field fs ''operator'')) h) (\<lambda>opr h.
               pushing havingParts [HStr (column @ '' '' @ opr @ '' ?'')] h))))"
  have s: "unchangedBelow n h0 (snd ?S)"
    using "2.prems" by (auto intro!: fr_thenRun fr_pushing fr_reading)
  show ?case
  proof (cases ?S)
    case (Pair r h')
    show ?thesis
    proof (cases r)
      case (Inl e)
      then show ?thesis using s Pair by simp
    next
      case (Inr u)
      have "unchangedBelow n h0 (snd (havingStore cs params havingParts h'))"
        using "2.IH"[OF Pair[symmetric] Inr] s Pair "2.prems"(2,3) by simp
      then show ?thesis using Pair Inr by simp
    qed
  qed
qed

lemma joinSection_frame:
  "unchangedBelow n h0 h \<Longrightarrow> n \<le> params \<Longrightarrow>
   unchangedBelow n h0 (snd (joinSection this params sql h))"
  unfolding joinSection_def
  by (auto intro!: fr_thenRun fr_reading joinsStore_frame)

lemma whereSection_frame:
  "unchangedBelow n h0 h \<Longrightarrow> n \<le> length h0 \<Longrightarrow> n \<le> params \<Longrightarrow>
   unchangedBelow n h0 (snd (whereSection depth this params sql h))"
  unfolding whereSection_def
  by (auto intro!: fr_thenRun fr_reading fr_pushing where_frame(1) split: prod.splits)

lemma groupBySection_frame:
  "unchangedBelow n h0 h \<Longrightarrow> unchangedBelow n h0 (snd (groupBySection this sql h))"
  unfolding groupBySection_def
  by (auto intro!: fr_thenRun fr_reading)

lemma havingSection_frame:
  "unchangedBelow n h0 h \<Longrightarrow> n \<le> length h0 \<Longrightarrow> n \<le> params \<Longrightarrow>
   unchangedBelow n h0 (snd (havingSection this params sql h))"
proof -
  assume a: "unchangedBelow n h0 h" "n \<le> length h0" "n \<le> params"
  have "n \<le> length h1" if "unchangedBelow n h0 h1" for h1
    using that a(2) by (simp add: unchangedBelow_def)
  then show ?thesis
    unfolding havingSection_def using a
    by (auto intro!: fr_thenRun fr_reading havingStore_frame ub_alloc simp: alloc_def)
qed

lemma orderBySection_frame:
  "unchangedBelow n h0 h \<Longrightarrow> unchangedBelow n h0 (snd (orderBySection this sql h))"
  unfolding orderBySection_def
  by (auto intro!: fr_thenRun fr_reading)

lemma pagingSection_frame:
  "unchangedBelow n h0 h \<Longrightarrow> n \<le> params \<Longrightarrow>
   unchangedBelow n h0 (snd (pagingSection key keyword this params sql h))"
  unfolding pagingSection_def
  by (auto intro!: fr_thenRun fr_reading fr_pushing)

lemma buildSqlStore_frame:
  assumes "unchangedBelow n h0 h" and "n \<le> length h0"
  shows "unchangedBelow n h0 (snd (buildSqlStore depth this h))"
proof -
  have len: "n \<le> length h1" if "unchangedBelow n h0 h1" for h1
    using that assms(2) by (simp add: unchangedBelow_def)
  show ?thesis
    unfolding buildSqlStore_def using assms
    by (auto intro!: fr_thenRun fr_reading ub_alloc joinSection_frame whereSection_frame
          groupBySection_frame havingSection_frame orderBySection_frame pagingSection_frame len
          simp: alloc_def)
qed

lemma buildSqlStore_keeps: "take (length h) (snd (buildSqlStore depth this h)) = h"
  using buildSqlStore_frame[of "length h" h h depth this] by (simp add: unchangedBelow_def)

lemma asJoinType_text: "asJoinType v = Inr ty \<Longrightarrow> asText v = Inr (joinTypeStr ty)"
  by (auto simp: asJoinType_def asText_def split: if_splits)

lemma asDirection_text: "asDirection v = Inr d \<Longrightarrow> asText v = Inr (directionStr d)"
  by (auto simp: asDirection_def asText_def split: if_splits)

lemma thenDo_Inr:
  assumes "thenDo r f = Inr y"
  obtains x where "r = Inr x" "f x = Inr y"
  using assms by (cases r) (auto simp: thenDo_def)

lemma joinsStore_refines:
  assumes "unchangedBelow (length h0) h0 h" and "readJoins vd h0 js = Inr joins"
    and "length h0 \<le> params" and "cellAt h params = Some (Arr Q)"
  shows "\<exists>vs. fst (joinsStore js params sql h) =
               Inr (sql @ concat (map (\<lambda>j. '' '' @ joinTypeStr (joinType j) @ '' JOIN '' @
                                        joinTable j @ '' ON '' @ joinOn j) joins))
           \<and> cellAt (snd (joinsStore js params sql h)) params = Some (Arr (Q @ vs))
           \<and> readValues vd h0 vs = Inr (concat (map joinParams joins))"
  using assms
proof (induction js arbitrary: joins sql h Q)
  case Nil
  then show ?case by (simp add: thenDo_def)
next
  case (Cons j js)
  from Cons.prems(2) obtain fs where fs: "getObj h0 j = Inr fs"
    and r1: "thenDo (asJoinType (field fs ''type'')) (\<lambda>ty.
     thenDo (asString (field fs ''table'')) (\<lambda>tb.
     thenDo (asString (field fs ''on'')) (\<lambda>onSql.
     thenDo (getArr h0 (field fs ''params'')) (\<lambda>vs.
     thenDo (readValues vd h0 vs) (\<lambda>ps.
     thenDo (readJoins vd h0 js) (\<lambda>rest.
       Inr (\<lparr>joinType = ty, joinTable = tb, joinOn = onSql, joinParams = ps\<rparr> # rest))))))) = Inr joins"
    unfolding readJoins.simps by (rule thenDo_Inr)
  from r1 obtain ty where ty: "asJoinType (field fs ''type'') = Inr ty"
    and r2: "thenDo (asString (field fs ''table'')) (\<lambda>tb.
     thenDo (asString (field fs ''on'')) (\<lambda>onSql.
     thenDo (getArr h0 (field fs ''params'')) (\<lambda>vs.
     thenDo (readValues vd h0 vs) (\<lambda>ps.
     thenDo (readJoins vd h0 js) (\<lambda>rest.
       Inr (\<lparr>joinType = ty, joinTable = tb, joinOn = onSql, joinParams = ps\<rparr> # rest)))))) = Inr joins"
    by (rule thenDo_Inr)
  from r2 obtain tb where tb: "asString (field fs ''table'') = Inr tb"
    and r3: "thenDo (asString (field fs ''on'')) (\<lambda>onSql.
     thenDo (getArr h0 (field fs ''params'')) (\<lambda>vs.
     thenDo (readValues vd h0 vs) (\<lambda>ps.
     thenDo (readJoins vd h0 js) (\<lambda>rest.
       Inr (\<lparr>joinType = ty, joinTable = tb, joinOn = onSql, joinParams = ps\<rparr> # rest))))) = Inr joins"
    by (rule thenDo_Inr)
  from r3 obtain onSql where onSql: "asString (field fs ''on'') = Inr onSql"
    and r4: "thenDo (getArr h0 (field fs ''params'')) (\<lambda>vs.
     thenDo (readValues vd h0 vs) (\<lambda>ps.
     thenDo (readJoins vd h0 js) (\<lambda>rest.
       Inr (\<lparr>joinType = ty, joinTable = tb, joinOn = onSql, joinParams = ps\<rparr> # rest)))) = Inr joins"
    by (rule thenDo_Inr)
  from r4 obtain vs where vs: "getArr h0 (field fs ''params'') = Inr vs"
    and r5: "thenDo (readValues vd h0 vs) (\<lambda>ps.
     thenDo (readJoins vd h0 js) (\<lambda>rest.
       Inr (\<lparr>joinType = ty, joinTable = tb, joinOn = onSql, joinParams = ps\<rparr> # rest))) = Inr joins"
    by (rule thenDo_Inr)
  from r5 obtain ps where ps: "readValues vd h0 vs = Inr ps"
    and r6: "thenDo (readJoins vd h0 js) (\<lambda>rest.
       Inr (\<lparr>joinType = ty, joinTable = tb, joinOn = onSql, joinParams = ps\<rparr> # rest)) = Inr joins"
    by (rule thenDo_Inr)
  from r6 obtain rest where rest: "readJoins vd h0 js = Inr rest"
    and joins: "joins = \<lparr>joinType = ty, joinTable = tb, joinOn = onSql, joinParams = ps\<rparr> # rest"
    by (rule thenDo_Inr) simp
  let ?sql' = "sql @ '' '' @ joinTypeStr ty @ '' JOIN '' @ tb @ '' ON '' @ onSql"
  let ?h' = "h[params := Arr (Q @ vs)]"
  have pl: "params < length h" using Cons.prems(4) by (rule cellAt_less)
  have rd: "thenDo (getObj h j) (\<lambda>fs.
             thenDo (asText (field fs ''type'')) (\<lambda>ty.
             thenDo (asText (field fs ''table'')) (\<lambda>tb.
             thenDo (asText (field fs ''on'')) (\<lambda>onSql.
             thenDo (getArr h (field fs ''params'')) (\<lambda>vs.
               Inr (sql @ '' '' @ ty @ '' JOIN '' @ tb @ '' ON '' @ onSql, vs)))))) = Inr (?sql', vs)"
    using getObj_ub[OF Cons.prems(1) fs] asJoinType_text[OF ty] asString_text[OF tb]
      asString_text[OF onSql] getArr_ub[OF Cons.prems(1) vs]
    by (simp add: thenDo_def)
  have step: "joinsStore (j # js) params sql h = joinsStore js params ?sql' ?h'"
    unfolding joinsStore.simps rd by (simp add: push_Arr[OF Cons.prems(4)])
  have ub': "unchangedBelow (length h0) h0 ?h'" using Cons.prems(1,3) by (rule ub_update)
  have c': "cellAt ?h' params = Some (Arr (Q @ vs))" using pl by (simp add: cellAt_update)
  from Cons.IH[OF ub' rest Cons.prems(3) c', of ?sql'] obtain ws where
    ws: "fst (joinsStore js params ?sql' ?h') =
               Inr (?sql' @ concat (map (\<lambda>j. '' '' @ joinTypeStr (joinType j) @ '' JOIN '' @
                                        joinTable j @ '' ON '' @ joinOn j) rest))"
      "cellAt (snd (joinsStore js params ?sql' ?h')) params = Some (Arr ((Q @ vs) @ ws))"
      "readValues vd h0 ws = Inr (concat (map joinParams rest))"
    by blast
  have rv: "readValues vd h0 (vs @ ws) = Inr (ps @ concat (map joinParams rest))"
    using ps ws(3) by (rule readValues_app)
  show ?case unfolding step joins using ws(1,2) rv by simp
qed

lemma havingStore_refines:
  assumes "unchangedBelow (length h0) h0 h" and "readHavings vd h0 cs = Inr hs"
    and "length h0 \<le> params" and "length h0 \<le> hp" and "params \<noteq> hp"
    and "cellAt h hp = Some (Arr P)" and "cellAt h params = Some (Arr Q)"
  shows "\<exists>vs. fst (havingStore cs params hp h) = Inr ()
           \<and> cellAt (snd (havingStore cs params hp h)) hp =
               Some (Arr (P @ map HStr (map (\<lambda>h. clauseColumn h @ '' '' @ clauseOperator h @ '' ?'') hs)))
           \<and> cellAt (snd (havingStore cs params hp h)) params = Some (Arr (Q @ vs))
           \<and> readValues vd h0 vs = Inr (map clauseValue hs)"
  using assms
proof (induction cs arbitrary: hs h P Q)
  case Nil
  then show ?case by (simp add: thenDo_def)
next
  case (Cons c cs)
  from Cons.prems(2) obtain fs where fs: "getObj h0 c = Inr fs"
    and r1: "thenDo (asBoolean (field fs ''boolean'')) (\<lambda>b.
     thenDo (if field fs ''type'' = HStr ''basic'' then readBasic vd h0 fs b
             else Inl IllTyped) (\<lambda>x.
     thenDo (readHavings vd h0 cs) (\<lambda>xs. Inr (x # xs)))) = Inr hs"
    unfolding readHavings.simps by (rule thenDo_Inr)
  from r1 obtain b where b: "asBoolean (field fs ''boolean'') = Inr b"
    and r2: "thenDo (if field fs ''type'' = HStr ''basic'' then readBasic vd h0 fs b
             else Inl IllTyped) (\<lambda>x.
     thenDo (readHavings vd h0 cs) (\<lambda>xs. Inr (x # xs))) = Inr hs"
    by (rule thenDo_Inr)
  from r2 obtain x where x: "(if field fs ''type'' = HStr ''basic'' then readBasic vd h0 fs b
             else Inl IllTyped) = Inr x"
    and r3: "thenDo (readHavings vd h0 cs) (\<lambda>xs. Inr (x # xs)) = Inr hs"
    by (rule thenDo_Inr)
  from r3 obtain xs where xs: "readHavings vd h0 cs = Inr xs" and hs: "hs = x # xs"
    by (rule thenDo_Inr) simp
  from x have rb: "readBasic vd h0 fs b = Inr x" by (simp split: if_splits)
  from rb obtain column opr v where f: "asString (field fs ''column'') = Inr column"
    "asString (field fs ''operator'') = Inr opr" "readValue vd h0 (field fs ''value'') = Inr v"
    "x = Basic b column opr v"
    by (auto simp: readBasic_def thenDo_def split: sum.splits)
  have pl: "params < length h" "hp < length h"
    using Cons.prems(6,7) by (auto dest: cellAt_less)
  let ?h1 = "h[params := Arr (Q @ [field fs ''value''])]"
  let ?h2 = "?h1[hp := Arr (P @ [HStr (column @ '' '' @ opr @ '' ?'')])]"
  have c1: "cellAt ?h1 hp = Some (Arr P)" using Cons.prems(5,6) pl by (simp add: cellAt_update)
  have S: "thenRun (reading (getObj h c) h) (\<lambda>fs h.
             thenRun (pushing params [field fs ''value''] h) (\<lambda>u h.
             thenRun (reading (asText (field fs ''column'')) h) (\<lambda>column h.
             thenRun (reading (asText (field fs ''operator'')) h) (\<lambda>opr h.
               pushing hp [HStr (column @ '' '' @ opr @ '' ?'')] h)))) = (Inr (), ?h2)"
    using getObj_ub[OF Cons.prems(1) fs] asString_text[OF f(1)] asString_text[OF f(2)]
    by (simp add: reading_def pushing_Arr[OF Cons.prems(7)] pushing_Arr[OF c1])
  have step: "havingStore (c # cs) params hp h = havingStore cs params hp ?h2"
    unfolding havingStore.simps S by simp
  have ub': "unchangedBelow (length h0) h0 ?h2"
    using Cons.prems(1,3,4) by (intro ub_update)
  have c2: "cellAt ?h2 hp = Some (Arr (P @ [HStr (column @ '' '' @ opr @ '' ?'')]))"
    "cellAt ?h2 params = Some (Arr (Q @ [field fs ''value'']))"
    using pl Cons.prems(5) by (simp_all add: cellAt_update)
  from Cons.IH[OF ub' xs Cons.prems(3,4,5) c2] obtain ws where
    ws: "fst (havingStore cs params hp ?h2) = Inr ()"
      "cellAt (snd (havingStore cs params hp ?h2)) hp =
         Some (Arr ((P @ [HStr (column @ '' '' @ opr @ '' ?'')]) @
            map HStr (map (\<lambda>h. clauseColumn h @ '' '' @ clauseOperator h @ '' ?'') xs)))"
      "cellAt (snd (havingStore cs params hp ?h2)) params = Some (Arr ((Q @ [field fs ''value'']) @ ws))"
      "readValues vd h0 ws = Inr (map clauseValue xs)"
    by blast
  have rv: "readValues vd h0 ([field fs ''value''] @ ws) = Inr ([v] @ map clauseValue xs)"
    using readValues_single[OF f(3)] ws(4) by (rule readValues_app)
  show ?case unfolding step hs f(4) using ws(1,2,3) rv by simp
qed

lemma orderByTexts_refines:
  assumes "unchangedBelow (length h0) h0 h" and "readOrderBys h0 pairs = Inr os"
  shows "orderByTexts h pairs = Inr (map (\<lambda>(c, d). c @ '' '' @ directionStr d) os)"
  using assms
proof (induction pairs arbitrary: os)
  case Nil
  then show ?case by simp
next
  case (Cons pair pairs)
  from Cons.prems(2) obtain xs where xs: "getArr h0 pair = Inr xs"
    and r1: "thenDo (if length xs = 2 then Inr () else Inl IllTyped) (\<lambda>u.
     thenDo (asString (xs ! 0)) (\<lambda>column.
     thenDo (asDirection (xs ! 1)) (\<lambda>dir.
     thenDo (readOrderBys h0 pairs) (\<lambda>rest. Inr ((column, dir) # rest))))) = Inr os"
    unfolding readOrderBys.simps by (rule thenDo_Inr)
  from r1 obtain u where u: "(if length xs = 2 then Inr () else Inl IllTyped) = Inr u"
    and r2: "thenDo (asString (xs ! 0)) (\<lambda>column.
     thenDo (asDirection (xs ! 1)) (\<lambda>dir.
     thenDo (readOrderBys h0 pairs) (\<lambda>rest. Inr ((column, dir) # rest)))) = Inr os"
    by (rule thenDo_Inr)
  from r2 obtain column where column: "asString (xs ! 0) = Inr column"
    and r3: "thenDo (asDirection (xs ! 1)) (\<lambda>dir.
     thenDo (readOrderBys h0 pairs) (\<lambda>rest. Inr ((column, dir) # rest))) = Inr os"
    by (rule thenDo_Inr)
  from r3 obtain dir where dir: "asDirection (xs ! 1) = Inr dir"
    and r4: "thenDo (readOrderBys h0 pairs) (\<lambda>rest. Inr ((column, dir) # rest)) = Inr os"
    by (rule thenDo_Inr)
  from r4 obtain rest where rest: "readOrderBys h0 pairs = Inr rest" and os: "os = (column, dir) # rest"
    by (rule thenDo_Inr) simp
  from u have len: "length xs = 2" by (simp split: if_splits)
  from getArr_ub[OF Cons.prems(1) xs] obtain a where a: "pair = HRef a" "cellAt h a = Some (Arr xs)"
    by (auto simp: getArr_def split: hval.splits option.splits cell.splits)
  have i: "indexStore h pair 0 = Inr (xs ! 0)" "indexStore h pair 1 = Inr (xs ! 1)"
    using a len by (simp_all add: indexStore_def)
  show ?case
    unfolding orderByTexts.simps i os
    using asString_text[OF column] asDirection_text[OF dir] Cons.IH[OF Cons.prems(1) rest]
    by (simp add: thenDo_def)
qed

lemma readClauses_length: "readClauses depth vd h cs = Inr cls \<Longrightarrow> length cls = length cs"
  by (induction cs arbitrary: cls) (auto split: sum.splits)

lemma thisField_read:
  "unchangedBelow (length h0) h0 h \<Longrightarrow> getObj h0 this = Inr fs \<Longrightarrow>
   thisField h this key = Inr (field fs key)"
  by (simp add: thisField_def thenDo_def getObj_ub)

lemma joinSection_refines:
  assumes ub: "unchangedBelow (length h0) h0 h" and obj: "getObj h0 this = Inr fs"
    and ja: "getArr h0 (field fs ''joinClauses'') = Inr js"
    and rj: "readJoins vd h0 js = Inr joins"
    and fresh: "length h0 \<le> params" and cell: "cellAt h params = Some (Arr Q)"
  shows "\<exists>vs. fst (joinSection this params sql h) =
               Inr (sql @ concat (map (\<lambda>j. '' '' @ joinTypeStr (joinType j) @ '' JOIN '' @
                                        joinTable j @ '' ON '' @ joinOn j) joins))
           \<and> cellAt (snd (joinSection this params sql h)) params = Some (Arr (Q @ vs))
           \<and> readValues vd h0 vs = Inr (concat (map joinParams joins))"
proof -
  have "joinSection this params sql h = joinsStore js params sql h"
    by (simp add: joinSection_def thisField_read[OF ub obj] getArr_ub[OF ub ja] thenDo_def
          reading_def)
  then show ?thesis using joinsStore_refines[OF ub rj fresh cell, of sql] by simp
qed

lemma whereSection_refines:
  assumes ub: "unchangedBelow (length h0) h0 h" and obj: "getObj h0 this = Inr fs"
    and rc: "readClauseArray depth vd h0 (field fs ''whereClauses'') = Inr cls"
    and cell: "cellAt h params = Some (Arr Q)"
  shows "(\<forall>e. length cls > 0 \<and> buildWhereClause cls = Inl e \<longrightarrow>
            fst (whereSection depth this params sql h) = Inl e)
       \<and> (\<forall>s ps. (if length cls > 0
                   then (case buildWhereClause cls of
                           Inl e \<Rightarrow> Inl e
                         | Inr (whereSql, whereParams) \<Rightarrow>
                             Inr (sql @ '' WHERE '' @ whereSql, whereParams))
                   else Inr (sql, [])) = Inr (s, ps) \<longrightarrow>
            (\<exists>vs. fst (whereSection depth this params sql h) = Inr s
               \<and> cellAt (snd (whereSection depth this params sql h)) params = Some (Arr (Q @ vs))
               \<and> readValues vd h0 vs = Inr ps))"
proof -
  obtain d where d: "depth = Suc d" using rc by (cases depth) auto
  from rc obtain cs where cs: "getArr h0 (field fs ''whereClauses'') = Inr cs"
    "readClauses d vd h0 cs = Inr cls"
    unfolding d by (auto split: sum.splits)
  have len: "length cls = length cs" using cs(2) by (rule readClauses_length)
  let ?N = "buildWhereClauseStore depth (field fs ''whereClauses'') h"
  have unf: "whereSection depth this params sql h =
      (if length cs > 0 then
         thenRun ?N (\<lambda>(whereSql, whereParams) h.
         thenRun (reading (getArr h (HRef whereParams)) h) (\<lambda>vs h.
         thenRun (pushing params vs h) (\<lambda>u h.
           (Inr (sql @ '' WHERE '' @ whereSql), h))))
       else (Inr sql, h))"
    by (simp add: whereSection_def thisField_read[OF ub obj] getArr_ub[OF ub cs(1)] reading_def)
  show ?thesis
  proof (cases "length cs > 0")
    case False
    then show ?thesis using unf len cell by simp
  next
    case True
    note wr = where_refines(1)[OF ub rc]
    have fr: "unchangedBelow (length h) h (snd ?N)"
      by (rule where_frame(1)) simp_all
    show ?thesis
    proof (cases "buildWhereClause cls")
      case (Inl e)
      with wr have "fst ?N = Inl e" by blast
      then show ?thesis using Inl True unf len by (cases ?N) simp
    next
      case (Inr r)
      obtain wsql wps where r: "r = (wsql, wps)" by (cases r)
      from wr Inr r obtain p vs where n: "fst ?N = Inr (wsql, p)" "length h \<le> p"
        "cellAt (snd ?N) p = Some (Arr vs)" "readValues vd h0 vs = Inr wps"
        by auto
      obtain h' where N: "?N = (Inr (wsql, p), h')" using n(1) by (cases ?N) auto
      have c': "cellAt h' params = Some (Arr Q)"
        using fr[unfolded N snd_conv] cell by (rule cellAt_ub)
      have pl: "params < length h'" using c' by (rule cellAt_less)
      have ga: "getArr h' (HRef p) = Inr vs" using n(3)[unfolded N snd_conv] by (simp add: getArr_def)
      have "whereSection depth this params sql h =
              (Inr (sql @ '' WHERE '' @ wsql), h'[params := Arr (Q @ vs)])"
        using True unfolding unf N by (simp add: reading_def ga pushing_Arr[OF c'])
      then show ?thesis using Inr r True len n(4) pl by (simp add: cellAt_update)
    qed
  qed
qed

lemma groupBySection_refines:
  assumes ub: "unchangedBelow (length h0) h0 h" and obj: "getObj h0 this = Inr fs"
    and gs: "getStrings h0 (field fs ''groupByColumns'') = Inr groups"
  shows "groupBySection this sql h =
           (Inr (if length groups > 0 then sql @ '' GROUP BY '' @ js_join '', '' groups else sql), h)"
  by (simp add: groupBySection_def thisField_read[OF ub obj] getStrings_ub[OF ub gs] thenDo_def
        reading_def)

lemma havingSection_refines:
  assumes ub: "unchangedBelow (length h0) h0 h" and obj: "getObj h0 this = Inr fs"
    and ha: "getArr h0 (field fs ''havingConditions'') = Inr cs"
    and rh: "readHavings vd h0 cs = Inr hs"
    and fresh: "length h0 \<le> params" and cell: "cellAt h params = Some (Arr Q)"
  shows "\<exists>vs. fst (havingSection this params sql h) =
               Inr (if length hs > 0
                    then sql @ '' HAVING '' @
                         js_join '' AND ''
                           (map (\<lambda>h. clauseColumn h @ '' '' @ clauseOperator h @ '' ?'') hs)
                    else sql)
           \<and> cellAt (snd (havingSection this params sql h)) params = Some (Arr (Q @ vs))
           \<and> readValues vd h0 vs = Inr (if length hs > 0 then map clauseValue hs else [])"
proof -
  have len: "length hs = length cs" using rh
    by (induction cs arbitrary: hs) (auto simp: thenDo_def split: sum.splits if_splits)
  let ?h1 = "h @ [Arr []]"
  let ?H = "havingStore cs params (length h) ?h1"
  have unf: "havingSection this params sql h =
      (if length cs > 0 then
         thenRun ?H (\<lambda>u h'.
              thenRun (reading (getStrings h' (HRef (length h))) h') (\<lambda>ps h'.
                (Inr (sql @ '' HAVING '' @ js_join '' AND '' ps), h')))
       else (Inr sql, h))"
    by (simp add: havingSection_def thisField_read[OF ub obj] getArr_ub[OF ub ha] thenDo_def
          reading_def alloc_def)
  show ?thesis
  proof (cases "length cs > 0")
    case False
    then show ?thesis using unf len cell by simp
  next
    case True
    have ub1: "unchangedBelow (length h0) h0 ?h1" using ub by (auto simp: unchangedBelow_def)
    have l0: "length h0 \<le> length h" using ub by (simp add: unchangedBelow_def)
    have pl: "params < length h" using cell by (rule cellAt_less)
    have ne: "params \<noteq> length h" using pl by simp
    have c1: "cellAt ?h1 (length h) = Some (Arr [])" "cellAt ?h1 params = Some (Arr Q)"
      using cell ne by (simp_all add: cellAt_alloc)
    from havingStore_refines[OF ub1 rh fresh l0 ne c1] obtain vs where
      v: "fst ?H = Inr ()"
        "cellAt (snd ?H) (length h) =
           Some (Arr ([] @ map HStr (map (\<lambda>h. clauseColumn h @ '' '' @ clauseOperator h @ '' ?'') hs)))"
        "cellAt (snd ?H) params = Some (Arr (Q @ vs))"
        "readValues vd h0 vs = Inr (map clauseValue hs)"
      by blast
    obtain h' where H: "?H = (Inr (), h')" using v(1) by (cases ?H) auto
    have gs: "getStrings h' (HRef (length h)) =
                Inr (map (\<lambda>h. clauseColumn h @ '' '' @ clauseOperator h @ '' ?'') hs)"
      using v(2)[unfolded H snd_conv] by (intro getStrings_Arr) simp
    have "havingSection this params sql h =
            (Inr (sql @ '' HAVING '' @
                         js_join '' AND ''
                           (map (\<lambda>h. clauseColumn h @ '' '' @ clauseOperator h @ '' ?'') hs)), h')"
      using True unfolding unf H by (simp add: reading_def gs)
    then show ?thesis using True len v(3,4) H by simp
  qed
qed

lemma orderBySection_refines:
  assumes ub: "unchangedBelow (length h0) h0 h" and obj: "getObj h0 this = Inr fs"
    and oa: "getArr h0 (field fs ''orderByConditions'') = Inr pairs"
    and ro: "readOrderBys h0 pairs = Inr os"
  shows "orderBySection this sql h =
           (Inr (if length os > 0
                 then sql @ '' ORDER BY '' @
                      js_join '', '' (map (\<lambda>(c, d). c @ '' '' @ directionStr d) os)
                 else sql), h)"
proof -
  have len: "length os = length pairs" using ro
    by (induction pairs arbitrary: os) (auto simp: thenDo_def split: sum.splits if_splits)
  show ?thesis
    using len
    by (simp add: orderBySection_def thisField_read[OF ub obj] getArr_ub[OF ub oa] thenDo_def
          reading_def orderByTexts_refines[OF ub ro])
qed

lemma pagingSection_refines:
  assumes ub: "unchangedBelow (length h0) h0 h" and obj: "getObj h0 this = Inr fs"
    and rp: "readPaging (field fs key) = Inr lim"
    and cell: "cellAt h params = Some (Arr Q)"
  shows "\<exists>vs. fst (pagingSection key keyword this params sql h) =
               Inr (case lim of None \<Rightarrow> sql | Some n \<Rightarrow> sql @ keyword)
           \<and> cellAt (snd (pagingSection key keyword this params sql h)) params = Some (Arr (Q @ vs))
           \<and> readValues vd h0 vs = Inr (case lim of None \<Rightarrow> [] | Some n \<Rightarrow> [JNum n])"
proof -
  have pl: "params < length h" using cell by (rule cellAt_less)
  show ?thesis
  proof (cases lim)
    case None
    with rp have "field fs key = HNull" by (auto simp: readPaging_def split: hval.splits)
    then show ?thesis using None cell
      by (simp add: pagingSection_def thisField_read[OF ub obj] reading_def)
  next
    case (Some n)
    with rp have "field fs key = HNum n" by (auto simp: readPaging_def split: hval.splits)
    then show ?thesis using Some pl
      by (simp add: pagingSection_def thisField_read[OF ub obj] reading_def
            pushing_Arr[OF cell] cellAt_update)
  qed
qed

lemma readBasic_ub:
  assumes ub: "unchangedBelow (length h0) h0 h" and rb: "readBasic vd h0 fs b = Inr cl"
  shows "readBasic vd h fs b = Inr cl"
proof -
  from rb obtain column opr v where f: "asString (field fs ''column'') = Inr column"
    "asString (field fs ''operator'') = Inr opr" "readValue vd h0 (field fs ''value'') = Inr v"
    "cl = Basic b column opr v"
    by (auto simp: readBasic_def thenDo_def split: sum.splits)
  show ?thesis
    using f(1,2,4) readValue_ub[OF ub f(3)] by (simp add: readBasic_def thenDo_def)
qed

lemma readRaw_ub:
  assumes ub: "unchangedBelow (length h0) h0 h" and rr: "readRaw vd h0 fs b = Inr cl"
  shows "readRaw vd h fs b = Inr cl"
proof -
  from rr obtain sql vs ps where f: "asString (field fs ''sql'') = Inr sql"
    "spreadOrEmpty h0 (field fs ''params'') = Inr vs" "readValues vd h0 vs = Inr ps"
    "cl = Raw b sql ps"
    by (auto simp: readRaw_def thenDo_def split: sum.splits)
  show ?thesis
    using f(1,4) spreadOrEmpty_ub[OF ub f(2)] readValues_ub[OF ub f(3)]
    by (simp add: readRaw_def thenDo_def)
qed

lemma readClauseArray_ub:
  "unchangedBelow (length h0) h0 h \<Longrightarrow> readClauseArray depth vd h0 v = Inr cls \<Longrightarrow>
     readClauseArray depth vd h v = Inr cls"
  and readClauses_ub:
  "unchangedBelow (length h0) h0 h \<Longrightarrow> readClauses depth vd h0 cs = Inr cls \<Longrightarrow>
     readClauses depth vd h cs = Inr cls"
  and readClause_ub:
  "unchangedBelow (length h0) h0 h \<Longrightarrow> readClause depth vd h0 c = Inr cl \<Longrightarrow>
     readClause depth vd h c = Inr cl"
proof (induction depth vd h0 v and depth vd h0 cs and depth vd h0 c
       arbitrary: cls and cls and cl
       rule: readClauseArray_readClauses_readClause.induct)
  case (1 vdepth h0 v)
  then show ?case by simp
next
  case (2 depth vdepth h0 v)
  from "2.prems"(2) obtain cs where cs: "getArr h0 v = Inr cs"
    "readClauses depth vdepth h0 cs = Inr cls"
    by (auto split: sum.splits)
  show ?case using getArr_ub[OF "2.prems"(1) cs(1)] "2.IH"[OF cs(1) "2.prems"(1) cs(2)] by simp
next
  case (3 depth vdepth h0)
  then show ?case by simp
next
  case (4 depth vdepth h0 c cs)
  from "4.prems"(2) obtain x xs where x: "readClause depth vdepth h0 c = Inr x"
    "readClauses depth vdepth h0 cs = Inr xs" "cls = x # xs"
    by (auto split: sum.splits)
  show ?case using "4.IH"(1)[OF "4.prems"(1) x(1)] "4.IH"(2)[OF x(1) "4.prems"(1) x(2)] x(3)
    by simp
next
  case (5 depth vdepth h0 c)
  from "5.prems"(2) obtain fs b where f: "getObj h0 c = Inr fs"
    "asBoolean (field fs ''boolean'') = Inr b"
    by (auto split: sum.splits)
  note g = getObj_ub[OF "5.prems"(1) f(1)]
  consider (basic) "field fs ''type'' = HStr ''basic''"
    | (group) "field fs ''type'' \<noteq> HStr ''basic''" "field fs ''type'' = HStr ''group''"
    | (other) "field fs ''type'' \<noteq> HStr ''basic''" "field fs ''type'' \<noteq> HStr ''group''"
    by blast
  then show ?case
  proof cases
    case basic
    then show ?thesis using "5.prems" f g by (simp add: readBasic_ub)
  next
    case group
    from "5.prems"(2) f group obtain cls' where
      c: "readClauseArray depth vdepth h0 (field fs ''clauses'') = Inr cls'" "cl = Group b cls'"
      by (auto split: sum.splits)
    show ?thesis using "5.IH"[OF f(1) f(2) group "5.prems"(1) c(1)] c(2) f g group by simp
  next
    case other
    then show ?thesis using "5.prems" f g by (auto simp: readRaw_ub split: if_splits)
  qed
qed

lemma readHavings_ub:
  "unchangedBelow (length h0) h0 h \<Longrightarrow> readHavings vd h0 cs = Inr hs \<Longrightarrow>
   readHavings vd h cs = Inr hs"
proof (induction cs arbitrary: hs)
  case Nil
  then show ?case by simp
next
  case (Cons c cs)
  from Cons.prems(2) obtain fs b x xs where f: "getObj h0 c = Inr fs"
    "asBoolean (field fs ''boolean'') = Inr b" "field fs ''type'' = HStr ''basic''"
    "readBasic vd h0 fs b = Inr x" "readHavings vd h0 cs = Inr xs" "hs = x # xs"
    by (auto simp: thenDo_def split: sum.splits if_splits)
  show ?case
    using getObj_ub[OF Cons.prems(1) f(1)] f(2,3,6) readBasic_ub[OF Cons.prems(1) f(4)]
      Cons.IH[OF Cons.prems(1) f(5)]
    by (simp add: thenDo_def)
qed

lemma readJoins_ub:
  "unchangedBelow (length h0) h0 h \<Longrightarrow> readJoins vd h0 js = Inr joins \<Longrightarrow>
   readJoins vd h js = Inr joins"
proof (induction js arbitrary: joins)
  case Nil
  then show ?case by simp
next
  case (Cons j js)
  from Cons.prems(2) obtain fs ty tb onSql vs ps rest where f: "getObj h0 j = Inr fs"
    "asJoinType (field fs ''type'') = Inr ty" "asString (field fs ''table'') = Inr tb"
    "asString (field fs ''on'') = Inr onSql" "getArr h0 (field fs ''params'') = Inr vs"
    "readValues vd h0 vs = Inr ps" "readJoins vd h0 js = Inr rest"
    "joins = \<lparr>joinType = ty, joinTable = tb, joinOn = onSql, joinParams = ps\<rparr> # rest"
    by (auto simp: thenDo_def split: sum.splits)
  show ?case
    using getObj_ub[OF Cons.prems(1) f(1)] f(2,3,4,8) getArr_ub[OF Cons.prems(1) f(5)]
      readValues_ub[OF Cons.prems(1) f(6)] Cons.IH[OF Cons.prems(1) f(7)]
    by (simp add: thenDo_def)
qed

lemma readOrderBys_ub:
  "unchangedBelow (length h0) h0 h \<Longrightarrow> readOrderBys h0 pairs = Inr os \<Longrightarrow>
   readOrderBys h pairs = Inr os"
proof (induction pairs arbitrary: os)
  case Nil
  then show ?case by simp
next
  case (Cons pair pairs)
  from Cons.prems(2) obtain xs column dir rest where f: "getArr h0 pair = Inr xs"
    "length xs = 2" "asString (xs ! 0) = Inr column" "asDirection (xs ! 1) = Inr dir"
    "readOrderBys h0 pairs = Inr rest" "os = (column, dir) # rest"
    by (auto simp: thenDo_def split: sum.splits if_splits)
  show ?case
    using getArr_ub[OF Cons.prems(1) f(1)] f(2,3,4,6) Cons.IH[OF Cons.prems(1) f(5)]
    by (simp add: thenDo_def)
qed

lemma readGroup_ub:
  "unchangedBelow (length h0) h0 h \<Longrightarrow> readGroup depth vd h0 v = Inr g \<Longrightarrow>
   readGroup depth vd h v = Inr g"
  by (auto simp: readGroup_def thenDo_def split: if_splits sum.splits dest: readClauseArray_ub)

lemma readBuilder_Inr:
  assumes "readBuilder depth vd h this = Inr q"
  obtains fs table cols cls lim off pairs orders groups cs havings js joins grp where
    "getObj h this = Inr fs" "asString (field fs ''tableName'') = Inr table"
    "getStrings h (field fs ''selectColumns'') = Inr cols"
    "readClauseArray depth vd h (field fs ''whereClauses'') = Inr cls"
    "readPaging (field fs ''limitValue'') = Inr lim"
    "readPaging (field fs ''offsetValue'') = Inr off"
    "getArr h (field fs ''orderByConditions'') = Inr pairs" "readOrderBys h pairs = Inr orders"
    "getStrings h (field fs ''groupByColumns'') = Inr groups"
    "getArr h (field fs ''havingConditions'') = Inr cs" "readHavings vd h cs = Inr havings"
    "getArr h (field fs ''joinClauses'') = Inr js" "readJoins vd h js = Inr joins"
    "readGroup depth vd h (field fs ''currentWhereGroup'') = Inr grp"
    "q = \<lparr> tableName = table, selectColumns = cols, whereClauses = cls,
             limitValue = lim, offsetValue = off, orderByConditions = orders,
             groupByColumns = groups, havingConditions = havings, joinClauses = joins,
             currentWhereGroup = grp \<rparr>"
  using assms unfolding readBuilder_def
  by (elim thenDo_Inr) (rule that; (assumption | blast))

lemma readBuilder_ub:
  assumes ub: "unchangedBelow (length h0) h0 h" and rb: "readBuilder depth vd h0 this = Inr q"
  shows "readBuilder depth vd h this = Inr q"
proof -
  from rb obtain fs table cols cls lim off pairs orders groups cs havings js joins grp where
    f: "getObj h0 this = Inr fs" "asString (field fs ''tableName'') = Inr table"
    "getStrings h0 (field fs ''selectColumns'') = Inr cols"
    "readClauseArray depth vd h0 (field fs ''whereClauses'') = Inr cls"
    "readPaging (field fs ''limitValue'') = Inr lim"
    "readPaging (field fs ''offsetValue'') = Inr off"
    "getArr h0 (field fs ''orderByConditions'') = Inr pairs" "readOrderBys h0 pairs = Inr orders"
    "getStrings h0 (field fs ''groupByColumns'') = Inr groups"
    "getArr h0 (field fs ''havingConditions'') = Inr cs" "readHavings vd h0 cs = Inr havings"
    "getArr h0 (field fs ''joinClauses'') = Inr js" "readJoins vd h0 js = Inr joins"
    "readGroup depth vd h0 (field fs ''currentWhereGroup'') = Inr grp"
    "q = \<lparr> tableName = table, selectColumns = cols, whereClauses = cls,
             limitValue = lim, offsetValue = off, orderByConditions = orders,
             groupByColumns = groups, havingConditions = havings, joinClauses = joins,
             currentWhereGroup = grp \<rparr>"
    by (rule readBuilder_Inr)
  show ?thesis
    unfolding readBuilder_def
    by (simp add: thenDo_def getObj_ub[OF ub f(1)] f(2) getStrings_ub[OF ub f(3)]
          readClauseArray_ub[OF ub f(4)] f(5) f(6) getArr_ub[OF ub f(7)]
          readOrderBys_ub[OF ub f(8)] getStrings_ub[OF ub f(9)] getArr_ub[OF ub f(10)]
          readHavings_ub[OF ub f(11)] getArr_ub[OF ub f(12)] readJoins_ub[OF ub f(13)]
          readGroup_ub[OF ub f(14)] f(15))
qed

lemma readResult_Inr:
  "cellAt h p = Some (Arr vs) \<Longrightarrow> readValues vd h vs = Inr ps \<Longrightarrow>
   readResult vd h (Inr (sql, p)) = Inr (sql, ps)"
  by (simp add: readResult_def getArr_def thenDo_def)

lemma buildSqlStore_refines:
  assumes ub: "unchangedBelow (length h0) h0 h" and rb: "readBuilder depth vd h0 this = Inr q"
  shows "readResult vd (snd (buildSqlStore depth this h)) (fst (buildSqlStore depth this h))
           = fst (buildSql q)"
proof -
  from rb obtain fs table cols cls lim off pairs orders groups cs havings js joins grp where
    f: "getObj h0 this = Inr fs" "asString (field fs ''tableName'') = Inr table"
    "getStrings h0 (field fs ''selectColumns'') = Inr cols"
    "readClauseArray depth vd h0 (field fs ''whereClauses'') = Inr cls"
    "readPaging (field fs ''limitValue'') = Inr lim"
    "readPaging (field fs ''offsetValue'') = Inr off"
    "getArr h0 (field fs ''orderByConditions'') = Inr pairs" "readOrderBys h0 pairs = Inr orders"
    "getStrings h0 (field fs ''groupByColumns'') = Inr groups"
    "getArr h0 (field fs ''havingConditions'') = Inr cs" "readHavings vd h0 cs = Inr havings"
    "getArr h0 (field fs ''joinClauses'') = Inr js" "readJoins vd h0 js = Inr joins"
    "readGroup depth vd h0 (field fs ''currentWhereGroup'') = Inr grp"
    "q = \<lparr> tableName = table, selectColumns = cols, whereClauses = cls,
             limitValue = lim, offsetValue = off, orderByConditions = orders,
             groupByColumns = groups, havingConditions = havings, joinClauses = joins,
             currentWhereGroup = grp \<rparr>"
    by (rule readBuilder_Inr)
  have sel: "tableName q = table" "selectColumns q = cols" "whereClauses q = cls"
    "limitValue q = lim" "offsetValue q = off" "orderByConditions q = orders"
    "groupByColumns q = groups" "havingConditions q = havings" "joinClauses q = joins"
    by (simp_all add: f(15))
  let ?X = "buildSqlStore depth this h"
  let ?p = "length h"
  let ?h1 = "h @ [Arr []]"
  let ?sql0 = "''SELECT '' @ js_join '', '' cols @ '' FROM '' @ table"
  let ?sql1 = "?sql0 @ concat (map (\<lambda>j. '' '' @ joinTypeStr (joinType j) @ '' JOIN '' @
                                        joinTable j @ '' ON '' @ joinOn j) joins)"
  let ?ps1 = "concat (map joinParams joins)"
  define K7 :: "string \<Rightarrow> store \<Rightarrow> (error + (string \<times> nat)) \<times> store"
    where "K7 = (\<lambda>sql h'. (Inr (sql, ?p), h'))"
  define K6 where "K6 = (\<lambda>sql h'.
     thenRun (pagingSection ''offsetValue'' '' OFFSET ?'' this ?p sql h') K7)"
  define K5 where "K5 = (\<lambda>sql h'.
     thenRun (pagingSection ''limitValue'' '' LIMIT ?'' this ?p sql h') K6)"
  define K4 where "K4 = (\<lambda>sql h'. thenRun (orderBySection this sql h') K5)"
  define K3 where "K3 = (\<lambda>sql h'. thenRun (havingSection this ?p sql h') K4)"
  define K2 where "K2 = (\<lambda>sql h'. thenRun (groupBySection this sql h') K3)"
  define K1 where "K1 = (\<lambda>sql h'. thenRun (whereSection depth this ?p sql h') K2)"
  have l0: "length h0 \<le> ?p" using ub by (simp add: unchangedBelow_def)
  have ub1: "unchangedBelow (length h0) h0 ?h1" using ub by (auto simp: unchangedBelow_def)
  have c1: "cellAt ?h1 ?p = Some (Arr [])" by (simp add: cellAt_alloc)
  have X0: "?X = thenRun (joinSection this ?p ?sql0 ?h1) K1"
    unfolding K1_def K2_def K3_def K4_def K5_def K6_def K7_def
    by (simp add: buildSqlStore_def thisField_read[OF ub f(1)] thenDo_def
          getStrings_ub[OF ub f(3)] f(2) reading_def alloc_def)
  from joinSection_refines[OF ub1 f(1) f(12) f(13) l0 c1, of ?sql0] obtain vs1 where
    j: "fst (joinSection this ?p ?sql0 ?h1) = Inr ?sql1"
      "cellAt (snd (joinSection this ?p ?sql0 ?h1)) ?p = Some (Arr ([] @ vs1))"
      "readValues vd h0 vs1 = Inr ?ps1"
    by blast
  obtain hA where J: "joinSection this ?p ?sql0 ?h1 = (Inr ?sql1, hA)"
    using j(1) by (cases "joinSection this ?p ?sql0 ?h1") auto
  have ubA: "unchangedBelow (length h0) h0 hA"
    using joinSection_frame[OF ub1 l0, of this ?sql0] unfolding J by simp
  have cA: "cellAt hA ?p = Some (Arr vs1)" using j(2) unfolding J by simp
  have X1: "?X = thenRun (whereSection depth this ?p ?sql1 hA) K2"
    unfolding X0 J by (simp add: K1_def)
  let ?W = "if length cls > 0
            then (case buildWhereClause cls of
                    Inl e \<Rightarrow> Inl e
                  | Inr (whereSql, whereParams) \<Rightarrow>
                      Inr (?sql1 @ '' WHERE '' @ whereSql, whereParams))
            else Inr (?sql1, [])"
  note wr = whereSection_refines[OF ubA f(1) f(4) cA, of ?sql1]
  show ?thesis
  proof (cases ?W)
    case (Inl e)
    then have e: "length cls > 0" "buildWhereClause cls = Inl e"
      by (auto split: if_splits sum.splits)
    with wr have "fst (whereSection depth this ?p ?sql1 hA) = Inl e" by blast
    then have "fst ?X = Inl e"
      unfolding X1 by (cases "whereSection depth this ?p ?sql1 hA") simp
    moreover have "fst (buildSql q) = Inl e"
      unfolding buildSql_def Let_def sel using e by simp
    ultimately show ?thesis by (simp add: readResult_def)
  next
    case (Inr r)
    obtain sql2 ps2 where r: "r = (sql2, ps2)" by (cases r)
    from wr Inr r obtain vs2 where
      w: "fst (whereSection depth this ?p ?sql1 hA) = Inr sql2"
        "cellAt (snd (whereSection depth this ?p ?sql1 hA)) ?p = Some (Arr (vs1 @ vs2))"
        "readValues vd h0 vs2 = Inr ps2"
      by blast
    obtain hB where W: "whereSection depth this ?p ?sql1 hA = (Inr sql2, hB)"
      using w(1) by (cases "whereSection depth this ?p ?sql1 hA") auto
    have ubB: "unchangedBelow (length h0) h0 hB"
      using whereSection_frame[OF ubA le_refl l0, of depth this ?sql1] unfolding W by simp
    have cB: "cellAt hB ?p = Some (Arr (vs1 @ vs2))" using w(2) unfolding W by simp
    let ?sql3 = "if length groups > 0 then sql2 @ '' GROUP BY '' @ js_join '', '' groups else sql2"
    have X3: "?X = K3 ?sql3 hB"
      unfolding X1 W thenRun_simps K2_def groupBySection_refines[OF ubB f(1) f(9)]
      by (rule refl)
    let ?sql4 = "if length havings > 0
                 then ?sql3 @ '' HAVING '' @
                      js_join '' AND ''
                        (map (\<lambda>h. clauseColumn h @ '' '' @ clauseOperator h @ '' ?'') havings)
                 else ?sql3"
    let ?ps3 = "if length havings > 0 then map clauseValue havings else []"
    from havingSection_refines[OF ubB f(1) f(10) f(11) l0 cB, of ?sql3] obtain vs3 where
      hv: "fst (havingSection this ?p ?sql3 hB) = Inr ?sql4"
        "cellAt (snd (havingSection this ?p ?sql3 hB)) ?p = Some (Arr ((vs1 @ vs2) @ vs3))"
        "readValues vd h0 vs3 = Inr ?ps3"
      by blast
    obtain hC where H: "havingSection this ?p ?sql3 hB = (Inr ?sql4, hC)"
      using hv(1) by (cases "havingSection this ?p ?sql3 hB") auto
    have ubC: "unchangedBelow (length h0) h0 hC"
      using havingSection_frame[OF ubB le_refl l0, of this ?sql3] unfolding H by simp
    have cC: "cellAt hC ?p = Some (Arr ((vs1 @ vs2) @ vs3))" using hv(2) unfolding H by simp
    let ?sql5 = "if length orders > 0
                 then ?sql4 @ '' ORDER BY '' @
                      js_join '', '' (map (\<lambda>(c, d). c @ '' '' @ directionStr d) orders)
                 else ?sql4"
    have X4: "?X = K4 ?sql4 hC"
      unfolding X3 K3_def H thenRun_simps by (rule refl)
    have X5: "?X = K5 ?sql5 hC"
      unfolding X4 K4_def orderBySection_refines[OF ubC f(1) f(7) f(8)] thenRun_simps
      by (rule refl)
    let ?sql6 = "case lim of None \<Rightarrow> ?sql5 | Some n \<Rightarrow> ?sql5 @ '' LIMIT ?''"
    let ?ps4 = "case lim of None \<Rightarrow> [] | Some n \<Rightarrow> [JNum n]"
    let ?L = "pagingSection ''limitValue'' '' LIMIT ?'' this ?p ?sql5 hC"
    from pagingSection_refines[OF ubC f(1) f(5) cC, of "'' LIMIT ?''" ?sql5] obtain vs4 where
      lm: "fst ?L = Inr ?sql6" "cellAt (snd ?L) ?p = Some (Arr (((vs1 @ vs2) @ vs3) @ vs4))"
        "readValues vd h0 vs4 = Inr ?ps4"
      by blast
    obtain hD where L: "?L = (Inr ?sql6, hD)" using lm(1) by (cases ?L) auto
    have ubD: "unchangedBelow (length h0) h0 hD"
      using pagingSection_frame[OF ubC l0, of "''limitValue''" "'' LIMIT ?''" this ?sql5]
      unfolding L by simp
    have cD: "cellAt hD ?p = Some (Arr (((vs1 @ vs2) @ vs3) @ vs4))" using lm(2) unfolding L by simp
    let ?sql7 = "case off of None \<Rightarrow> ?sql6 | Some n \<Rightarrow> ?sql6 @ '' OFFSET ?''"
    let ?ps5 = "case off of None \<Rightarrow> [] | Some n \<Rightarrow> [JNum n]"
    let ?O = "pagingSection ''offsetValue'' '' OFFSET ?'' this ?p ?sql6 hD"
    from pagingSection_refines[OF ubD f(1) f(6) cD, of "'' OFFSET ?''" ?sql6] obtain vs5 where
      os: "fst ?O = Inr ?sql7" "cellAt (snd ?O) ?p = Some (Arr ((((vs1 @ vs2) @ vs3) @ vs4) @ vs5))"
        "readValues vd h0 vs5 = Inr ?ps5"
      by blast
    obtain hE where O: "?O = (Inr ?sql7, hE)" using os(1) by (cases ?O) auto
    have ubE: "unchangedBelow (length h0) h0 hE"
      using pagingSection_frame[OF ubD l0, of "''offsetValue''" "'' OFFSET ?''" this ?sql6]
      unfolding O by simp
    have cE: "cellAt hE ?p = Some (Arr ((((vs1 @ vs2) @ vs3) @ vs4) @ vs5))"
      using os(2) unfolding O by simp
    have X7: "?X = (Inr (?sql7, ?p), hE)"
      unfolding X5 K5_def L thenRun_simps K6_def O K7_def by (rule refl)
    have rv0: "readValues vd h0 ((((vs1 @ vs2) @ vs3) @ vs4) @ vs5)
                 = Inr ((((?ps1 @ ps2) @ ?ps3) @ ?ps4) @ ?ps5)"
      by (intro readValues_app j(3) w(3) hv(3) lm(3) os(3))
    have rv: "readValues vd hE ((((vs1 @ vs2) @ vs3) @ vs4) @ vs5)
                 = Inr ((((?ps1 @ ps2) @ ?ps3) @ ?ps4) @ ?ps5)"
      using ubE rv0 by (rule readValues_ub)
    have store: "readResult vd (snd ?X) (fst ?X)
                   = Inr (?sql7, (((?ps1 @ ps2) @ ?ps3) @ ?ps4) @ ?ps5)"
      unfolding X7 fst_conv snd_conv using cE rv by (rule readResult_Inr)
    have P: "(if length cls > 0
               then (case buildWhereClause cls of
                       Inl e \<Rightarrow> Inl e
                     | Inr (whereSql, whereParams) \<Rightarrow>
                         Inr (?sql1 @ '' WHERE '' @ whereSql, ?ps1 @ whereParams))
               else Inr (?sql1, ?ps1)) = Inr (sql2, ?ps1 @ ps2)"
      using Inr r by (auto split: if_splits sum.splits)
    have pure: "fst (buildSql q) = Inr (?sql7, (((?ps1 @ ps2) @ ?ps3) @ ?ps4) @ ?ps5)"
      unfolding buildSql_def Let_def sel P by (simp split: option.splits)
    show ?thesis unfolding store pure by (rule refl)
  qed
qed

section \<open>Query builder: repeated compilation\<close>

text \<open>
  C8. A call of \<open>buildSql\<close> on the builder at \<open>this\<close> writes to no array or object
  that the store held before the call: every \<open>push\<close> goes to an array the call itself
  made. So whenever the store holds a plan at \<open>this\<close>, it holds the same plan (select
  columns, conditions, joins, group-by, having, order-by, limit, offset) after one call
  and after two, and both calls return what \<open>buildSql\<close> of that plan gives: the same
  SQL text and parameters equal element by element, or the same raise.
\<close>

theorem C8_buildSql_leaves_store_and_repeats:
  "let first = buildSqlStore depth this h;
       second = buildSqlStore depth this (snd first)
   in take (length h) (snd first) = h
    \<and> take (length (snd first)) (snd second) = snd first
    \<and> (readBuilder depth vdepth h this = Inr q \<longrightarrow>
          readBuilder depth vdepth (snd first) this = Inr q
        \<and> readBuilder depth vdepth (snd second) this = Inr q
        \<and> readResult vdepth (snd first) (fst first) = fst (buildSql q)
        \<and> readResult vdepth (snd second) (fst second) = fst (buildSql q))"
proof -
  let ?first = "buildSqlStore depth this h"
  let ?h1 = "snd ?first"
  let ?second = "buildSqlStore depth this ?h1"
  let ?h2 = "snd ?second"
  have k1: "take (length h) ?h1 = h" by (rule buildSqlStore_keeps)
  have k2: "take (length ?h1) ?h2 = ?h1" by (rule buildSqlStore_keeps)
  have u1: "unchangedBelow (length h) h ?h1" using k1 by (rule ub_of_take)
  have u2: "unchangedBelow (length ?h1) ?h1 ?h2" using k2 by (rule ub_of_take)
  have u12: "unchangedBelow (length h) h ?h2"
    by (rule buildSqlStore_frame[OF u1 le_refl])
  have main: "readBuilder depth vdepth ?h1 this = Inr q
        \<and> readBuilder depth vdepth ?h2 this = Inr q
        \<and> readResult vdepth ?h1 (fst ?first) = fst (buildSql q)
        \<and> readResult vdepth ?h2 (fst ?second) = fst (buildSql q)"
    if rb: "readBuilder depth vdepth h this = Inr q"
  proof -
    have b1: "readBuilder depth vdepth ?h1 this = Inr q" using u1 rb by (rule readBuilder_ub)
    have b2: "readBuilder depth vdepth ?h2 this = Inr q" using u12 rb by (rule readBuilder_ub)
    have r1: "readResult vdepth ?h1 (fst ?first) = fst (buildSql q)"
      using ub_refl rb by (rule buildSqlStore_refines)
    have r2: "readResult vdepth ?h2 (fst ?second) = fst (buildSql q)"
      using u1 rb by (rule buildSqlStore_refines)
    from b1 b2 r1 r2 show ?thesis by (intro conjI)
  qed
  show ?thesis unfolding Let_def
  proof (intro conjI impI)
    show "take (length h) ?h1 = h" by (rule k1)
    show "take (length ?h1) ?h2 = ?h1" by (rule k2)
  qed (use main in blast)+
qed

text \<open>
  On the example store both calls return
  \<open>SELECT * FROM users WHERE age IN (?, ?) OR ((vip = ?)) LIMIT ?\<close> with
  \<open>[18, 21, true, 10]\<close>, and the first thirteen cells are as before.
\<close>

theorem C8_witness:
  "readBuilder 2 1 planStore (HRef 12) = Inr planOfStore
   \<and> (let first = buildSqlStore 2 (HRef 12) planStore;
          second = buildSqlStore 2 (HRef 12) (snd first)
      in take 13 (snd first) = planStore
       \<and> readBuilder 2 1 (snd second) (HRef 12) = Inr planOfStore
       \<and> readResult 1 (snd first) (fst first) =
            Inr (''SELECT * FROM users WHERE age IN (?, ?) OR ((vip = ?)) LIMIT ?'',
                 [JNum 18, JNum 21, JBool True, JNum 10])
       \<and> readResult 1 (snd second) (fst second) =
            Inr (''SELECT * FROM users WHERE age IN (?, ?) OR ((vip = ?)) LIMIT ?'',
                 [JNum 18, JNum 21, JBool True, JNum 10]))"
proof -
  have len: "length planStore = 13" by (simp add: planStore_def)
  have rb: "readBuilder 2 1 planStore (HRef 12) = Inr planOfStore"
    by code_simp
  have pure: "fst (buildSql planOfStore) =
            Inr (''SELECT * FROM users WHERE age IN (?, ?) OR ((vip = ?)) LIMIT ?'',
                 [JNum 18, JNum 21, JBool True, JNum 10])"
    by code_simp
  show ?thesis
    using C8_buildSql_leaves_store_and_repeats[where h = planStore and depth = 2
        and this = "HRef 12" and vdepth = 1 and q = planOfStore] rb
    unfolding Let_def len pure by (intro conjI) simp_all
qed

section \<open>Helper lemmas: migration runs\<close>

lemma upEvents_simps [simp]:
  "upEvents [] = []" "upEvents (n # ns) = RunUp n # InsertRow n # upEvents ns"
  by (simp_all add: upEvents_def)




lemma attempted_simps [simp]:
  "attempted [] = []"
  "attempted (RunDown n # evs) = n # attempted evs"
  "attempted (WarnMissing n # evs) = n # attempted evs"
  "attempted (DeleteRow n # evs) = attempted evs"
  "attempted (RunUp n # evs) = attempted evs"
  "attempted (InsertRow n # evs) = attempted evs"
  by (simp_all add: attempted_def)

lemma deletedRows_simps [simp]:
  "deletedRows [] = []"
  "deletedRows (DeleteRow n # evs) = n # deletedRows evs"
  "deletedRows (RunDown n # evs) = deletedRows evs"
  "deletedRows (WarnMissing n # evs) = deletedRows evs"
  "deletedRows (RunUp n # evs) = deletedRows evs"
  "deletedRows (InsertRow n # evs) = deletedRows evs"
  by (simp_all add: deletedRows_def)

lemma availableMigrationsMap_key:
  "availableMigrationsMap ms k = Some m \<Longrightarrow> name m = k"
  by (auto simp: availableMigrationsMap_def dest!: map_of_SomeD)

lemma availableMigrationsMap_None:
  "availableMigrationsMap ms k = None \<longleftrightarrow> k \<notin> set (map name ms)"
  by (auto simp: availableMigrationsMap_def map_of_eq_None_iff image_iff)

lemma downLoop_spec:
  assumes "downLoop lookup ns w = (r, w')"
    and key: "\<And>k m. lookup k = Some m \<Longrightarrow> name m = k"
  shows "\<exists>evs k. events w' = events w @ evs \<and> k \<le> length ns
           \<and> attempted evs = take k ns
           \<and> (r = None \<longrightarrow> k = length ns)
           \<and> ledger w' = filter (\<lambda>x. x \<notin> set (deletedRows evs)) (ledger w)
           \<and> (\<forall>n. RunDown n \<in> set evs \<or> DeleteRow n \<in> set evs \<longrightarrow> lookup n \<noteq> None)"
  using assms(1)
proof (induction ns arbitrary: w)
  case Nil
  then show ?case by auto
next
  case (Cons n ns)
  show ?case
  proof (cases "lookup n")
    case None
    let ?w1 = "logEvent (WarnMissing n) w"
    from Cons.prems None have rec: "downLoop lookup ns ?w1 = (r, w')" by simp
    from Cons.IH[OF rec] obtain evs k where h:
      "events w' = events ?w1 @ evs" "k \<le> length ns" "attempted evs = take k ns"
      "r = None \<longrightarrow> k = length ns"
      "ledger w' = filter (\<lambda>x. x \<notin> set (deletedRows evs)) (ledger ?w1)"
      "\<forall>n. RunDown n \<in> set evs \<or> DeleteRow n \<in> set evs \<longrightarrow> lookup n \<noteq> None"
      by blast
    show ?thesis
      using h by (intro exI[of _ "WarnMissing n # evs"] exI[of _ "Suc k"]) (auto simp: logEvent_def)
  next
    case (Some m)
    then have nm: "name m = n" by (rule key)
    let ?w1 = "logEvent (RunDown n) w"
    obtain e s where d: "down m (userdb ?w1) = (e, s)" by (cases "down m (userdb ?w1)")
    show ?thesis
    proof (cases e)
      case (Some err)
      with Cons.prems \<open>lookup n = Some m\<close> nm d have "r = Some err" "w' = ?w1\<lparr>userdb := s\<rparr>"
        by (simp_all add: Let_def)
      then show ?thesis using \<open>lookup n = Some m\<close>
        by (intro exI[of _ "[RunDown n]"] exI[of _ "Suc 0"]) (auto simp: logEvent_def)
    next
      case None
      let ?w2 = "deleteLedgerRow n (logEvent (DeleteRow n) (?w1\<lparr>userdb := s\<rparr>))"
      from Cons.prems \<open>lookup n = Some m\<close> nm d None have rec: "downLoop lookup ns ?w2 = (r, w')"
        by (simp add: Let_def)
      from Cons.IH[OF rec] obtain evs k where h:
        "events w' = events ?w2 @ evs" "k \<le> length ns" "attempted evs = take k ns"
        "r = None \<longrightarrow> k = length ns"
        "ledger w' = filter (\<lambda>x. x \<notin> set (deletedRows evs)) (ledger ?w2)"
        "\<forall>n. RunDown n \<in> set evs \<or> DeleteRow n \<in> set evs \<longrightarrow> lookup n \<noteq> None"
        by blast
      have "ledger w' = filter (\<lambda>x. x \<notin> set (deletedRows (RunDown n # DeleteRow n # evs))) (ledger w)"
        using h(5) by (auto simp: deleteLedgerRow_def logEvent_def intro: filter_cong)
      then show ?thesis
        using h \<open>lookup n = Some m\<close>
        by (intro exI[of _ "RunDown n # DeleteRow n # evs"] exI[of _ "Suc k"])
           (auto simp: logEvent_def deleteLedgerRow_def)
    qed
  qed
qed

lemma migrationsToRollback_last:
  "0 < steps \<Longrightarrow>
   migrationsToRollback rn steps = rev (drop (length rn - nat steps) rn)"
  by (simp add: migrationsToRollback_def slice0_def take_rev)

lemma newEvents_append: "events w' = events w @ evs \<Longrightarrow> newEvents w w' = evs"
  by (simp add: newEvents_def)

lemma set_attempted:
  "n \<in> set (attempted evs) \<longleftrightarrow> RunDown n \<in> set evs \<or> WarnMissing n \<in> set evs"
  by (induction evs) (auto simp: attempted_def split: event.splits)

lemma migrateDown_spec:
  assumes run: "migrateDown steps (Inr files) require w = (r, w')"
    and avail: "available = loadEach require
                  (sort (filter (\<lambda>file. endsWith file ''.ts'' \<or> endsWith file ''.js'') files))"
    and sel: "selected = migrationsToRollback (getRanMigrations w) steps"
  shows "\<exists>k. k \<le> length selected
           \<and> attempted (newEvents w w') = take k selected
           \<and> (r = None \<longrightarrow> k = length selected)
           \<and> ledger w' = filter (\<lambda>x. x \<notin> set (deletedRows (newEvents w w'))) (ledger w)
           \<and> (\<forall>n. RunDown n \<in> set (newEvents w w') \<or> DeleteRow n \<in> set (newEvents w w')
                  \<longrightarrow> n \<in> set (map name available))"
proof (cases "ledger w = []")
  case True
  then have "r = None" "w' = w" "selected = []"
    using run sel
    by (simp_all add: migrateDown_def ensureMigrationsTable_def getRanMigrations_def
          migrationsToRollback_def slice0_def)
  then show ?thesis by (simp add: newEvents_def)
next
  case False
  then have "set (sort (ledger w)) \<noteq> {}" by simp
  then have "sort (ledger w) \<noteq> []" by (metis set_empty)
  then have loop: "downLoop (availableMigrationsMap available) selected w = (r, w')"
    using run avail sel
    by (simp add: migrateDown_def ensureMigrationsTable_def getRanMigrations_def
          loadMigrations_def Let_def)
  have key: "\<And>k m. availableMigrationsMap available k = Some m \<Longrightarrow> name m = k"
    by (rule availableMigrationsMap_key)
  from downLoop_spec[OF loop key] obtain evs k where h:
    "events w' = events w @ evs" "k \<le> length selected" "attempted evs = take k selected"
    "r = None \<longrightarrow> k = length selected"
    "ledger w' = filter (\<lambda>x. x \<notin> set (deletedRows evs)) (ledger w)"
    "\<forall>n. RunDown n \<in> set evs \<or> DeleteRow n \<in> set evs
         \<longrightarrow> availableMigrationsMap available n \<noteq> None"
    by blast
  have ne: "newEvents w w' = evs" using h(1) by (rule newEvents_append)
  show ?thesis
    using h(2-6) unfolding ne
    by (intro exI[of _ k]) (auto simp: availableMigrationsMap_None)
qed

lemma downEvents_simps [simp]:
  "downEvents lookup [] = []"
  "lookup n = Some m \<Longrightarrow> downEvents lookup (n # ns) = RunDown n # DeleteRow n # downEvents lookup ns"
  "lookup n = None \<Longrightarrow> downEvents lookup (n # ns) = WarnMissing n # downEvents lookup ns"
  by (simp_all add: downEvents_def)

lemma downsOf_simps [simp]:
  "downsOf lookup [] = []"
  "lookup n = Some m \<Longrightarrow> downsOf lookup (n # ns) = down m # downsOf lookup ns"
  "lookup n = None \<Longrightarrow> downsOf lookup (n # ns) = downsOf lookup ns"
  by (simp_all add: downsOf_def)

lemma downLoop_exact:
  assumes "downLoop lookup ns w = (r, w')"
    and key: "\<forall>k m. lookup k = Some m \<longrightarrow> name m = k"
  shows "(r, userdb w') = runAll (downsOf lookup ns) (userdb w)
         \<and> (\<exists>k. k \<le> length ns
               \<and> events w' = events w @ downEvents lookup (take k ns)
                                @ (if r = None then [] else [RunDown (ns ! k)])
               \<and> (r = None \<longrightarrow> k = length ns)
               \<and> (r \<noteq> None \<longrightarrow> k < length ns \<and> lookup (ns ! k) \<noteq> None)
               \<and> ledger w' =
                   filter (\<lambda>x. x \<notin> set (filter (\<lambda>n. lookup n \<noteq> None) (take k ns))) (ledger w))"
  using assms(1)
proof (induction ns arbitrary: w)
  case Nil
  then show ?case by auto
next
  case (Cons n ns)
  show ?case
  proof (cases "lookup n")
    case None
    let ?w1 = "logEvent (WarnMissing n) w"
    from Cons.prems None have rec: "downLoop lookup ns ?w1 = (r, w')" by simp
    from Cons.IH[OF rec] obtain k where h:
      "(r, userdb w') = runAll (downsOf lookup ns) (userdb ?w1)"
      "k \<le> length ns"
      "events w' = events ?w1 @ downEvents lookup (take k ns)
                     @ (if r = None then [] else [RunDown (ns ! k)])"
      "r = None \<longrightarrow> k = length ns"
      "r \<noteq> None \<longrightarrow> k < length ns \<and> lookup (ns ! k) \<noteq> None"
      "ledger w' = filter (\<lambda>x. x \<notin> set (filter (\<lambda>n. lookup n \<noteq> None) (take k ns))) (ledger ?w1)"
      by (elim exE conjE) (rule that; assumption)
    have a: "(r, userdb w') = runAll (downsOf lookup (n # ns)) (userdb w)"
      using h(1) None by (simp add: logEvent_def)
    have b: "\<exists>k. k \<le> length (n # ns)
               \<and> events w' = events w @ downEvents lookup (take k (n # ns))
                                @ (if r = None then [] else [RunDown ((n # ns) ! k)])
               \<and> (r = None \<longrightarrow> k = length (n # ns))
               \<and> (r \<noteq> None \<longrightarrow> k < length (n # ns) \<and> lookup ((n # ns) ! k) \<noteq> None)
               \<and> ledger w' =
                   filter (\<lambda>x. x \<notin> set (filter (\<lambda>n. lookup n \<noteq> None) (take k (n # ns)))) (ledger w)"
      using h(2-6) None by (intro exI[of _ "Suc k"]) (simp add: logEvent_def)
    from a b show ?thesis by (intro conjI)
  next
    case (Some m)
    then have nm: "name m = n" using key by blast
    let ?w1 = "logEvent (RunDown n) w"
    obtain e s where d: "down m (userdb w) = (e, s)" by (cases "down m (userdb w)")
    have d1: "down m (userdb ?w1) = (e, s)" using d by (simp add: logEvent_def)
    show ?thesis
    proof (cases e)
      case (Some err)
      with Cons.prems \<open>lookup n = Some m\<close> nm d1 have res: "r = Some err" "w' = ?w1\<lparr>userdb := s\<rparr>"
        by (simp_all add: Let_def)
      have a: "(r, userdb w') = runAll (downsOf lookup (n # ns)) (userdb w)"
        using res d Some \<open>lookup n = Some m\<close> by simp
      have b: "\<exists>k. k \<le> length (n # ns)
               \<and> events w' = events w @ downEvents lookup (take k (n # ns))
                                @ (if r = None then [] else [RunDown ((n # ns) ! k)])
               \<and> (r = None \<longrightarrow> k = length (n # ns))
               \<and> (r \<noteq> None \<longrightarrow> k < length (n # ns) \<and> lookup ((n # ns) ! k) \<noteq> None)
               \<and> ledger w' =
                   filter (\<lambda>x. x \<notin> set (filter (\<lambda>n. lookup n \<noteq> None) (take k (n # ns)))) (ledger w)"
        using res \<open>lookup n = Some m\<close> by (intro exI[of _ 0]) (simp add: logEvent_def)
      from a b show ?thesis by (intro conjI)
    next
      case None
      let ?w2 = "deleteLedgerRow n (logEvent (DeleteRow n) (?w1\<lparr>userdb := s\<rparr>))"
      from Cons.prems \<open>lookup n = Some m\<close> nm d1 None have rec: "downLoop lookup ns ?w2 = (r, w')"
        by (simp add: Let_def)
      from Cons.IH[OF rec] obtain k where h:
        "(r, userdb w') = runAll (downsOf lookup ns) (userdb ?w2)"
        "k \<le> length ns"
        "events w' = events ?w2 @ downEvents lookup (take k ns)
                       @ (if r = None then [] else [RunDown (ns ! k)])"
        "r = None \<longrightarrow> k = length ns"
        "r \<noteq> None \<longrightarrow> k < length ns \<and> lookup (ns ! k) \<noteq> None"
        "ledger w' = filter (\<lambda>x. x \<notin> set (filter (\<lambda>n. lookup n \<noteq> None) (take k ns))) (ledger ?w2)"
        by (elim exE conjE) (rule that; assumption)
      have a: "(r, userdb w') = runAll (downsOf lookup (n # ns)) (userdb w)"
        using h(1) d None \<open>lookup n = Some m\<close> by (simp add: logEvent_def deleteLedgerRow_def)
      have led: "ledger w' =
          filter (\<lambda>x. x \<notin> set (filter (\<lambda>n. lookup n \<noteq> None) (take (Suc k) (n # ns)))) (ledger w)"
        using h(6) \<open>lookup n = Some m\<close>
        by (auto simp: deleteLedgerRow_def logEvent_def intro: filter_cong)
      have b: "\<exists>k. k \<le> length (n # ns)
               \<and> events w' = events w @ downEvents lookup (take k (n # ns))
                                @ (if r = None then [] else [RunDown ((n # ns) ! k)])
               \<and> (r = None \<longrightarrow> k = length (n # ns))
               \<and> (r \<noteq> None \<longrightarrow> k < length (n # ns) \<and> lookup ((n # ns) ! k) \<noteq> None)
               \<and> ledger w' =
                   filter (\<lambda>x. x \<notin> set (filter (\<lambda>n. lookup n \<noteq> None) (take k (n # ns)))) (ledger w)"
        using h(2-5) led \<open>lookup n = Some m\<close>
        by (intro exI[of _ "Suc k"]) (simp add: logEvent_def deleteLedgerRow_def)
      from a b show ?thesis by (intro conjI)
    qed
  qed
qed

section \<open>Migration runner: applying\<close>




section \<open>Migration runner: rolling back\<close>

text \<open>
  C5. For a positive \<open>steps\<close>, \<open>migrateDown\<close> selects the last \<open>steps\<close> entries of the
  applied names sorted ascending, most recent first, and goes through them in that
  order. The \<open>down\<close> procedures of the selected entries that have a definition are run
  on the database in that order until one rejects, and the call returns or raises as
  they do. A call that returns has logged, for every selected entry in order, its
  \<open>down\<close> and its ledger \<open>DELETE\<close> (or the warning when it has no definition), and the
  ledger is the one before without the selected entries that have a definition. A call
  that raises has done so for the first \<open>k\<close> selected entries, has called the \<open>down\<close>
  of the next one, and has deleted the rows of those \<open>k\<close> only.
\<close>

theorem C5_migrateDown_rolls_back_last_steps_most_recent_first:
  assumes pos: "0 < steps"
    and run: "migrateDown steps (Inr files) require w = (r, w')"
    and sel: "selected = rev (drop (length (sort (ledger w)) - nat steps) (sort (ledger w)))"
    and lk: "lookup = availableMigrationsMap (loadEach require
               (sort (filter (\<lambda>file. endsWith file ''.ts'' \<or> endsWith file ''.js'') files)))"
  shows "migrationsToRollback (getRanMigrations w) steps = selected
         \<and> (r, userdb w') = runAll (downsOf lookup selected) (userdb w)
         \<and> (\<exists>k. k \<le> length selected
               \<and> newEvents w w' = downEvents lookup (take k selected)
                                    @ (if r = None then [] else [RunDown (selected ! k)])
               \<and> (r = None \<longrightarrow> k = length selected)
               \<and> (r \<noteq> None \<longrightarrow> k < length selected \<and> lookup (selected ! k) \<noteq> None)
               \<and> ledger w' =
                   filter (\<lambda>x. x \<notin> set (filter (\<lambda>n. lookup n \<noteq> None) (take k selected)))
                     (ledger w))"
proof -
  have s: "migrationsToRollback (getRanMigrations w) steps = selected"
    using pos sel by (simp add: migrationsToRollback_last getRanMigrations_def)
  show ?thesis
  proof (cases "ledger w = []")
    case True
    then have "r = None" "w' = w" "selected = []"
      using run sel
      by (simp_all add: migrateDown_def ensureMigrationsTable_def getRanMigrations_def)
    then show ?thesis using s by (simp add: newEvents_def)
  next
    case False
    then have "set (sort (ledger w)) \<noteq> {}" by simp
    then have "sort (ledger w) \<noteq> []" by (metis set_empty)
    then have loop: "downLoop lookup selected w = (r, w')"
      using run lk s
      by (simp add: migrateDown_def ensureMigrationsTable_def getRanMigrations_def
            loadMigrations_def Let_def)
    have key: "\<forall>k m. lookup k = Some m \<longrightarrow> name m = k"
      unfolding lk by (blast intro: availableMigrationsMap_key)
    from downLoop_exact[OF loop key] obtain k where h:
      "(r, userdb w') = runAll (downsOf lookup selected) (userdb w)"
      "k \<le> length selected"
      "events w' = events w @ downEvents lookup (take k selected)
                     @ (if r = None then [] else [RunDown (selected ! k)])"
      "r = None \<longrightarrow> k = length selected"
      "r \<noteq> None \<longrightarrow> k < length selected \<and> lookup (selected ! k) \<noteq> None"
      "ledger w' = filter (\<lambda>x. x \<notin> set (filter (\<lambda>n. lookup n \<noteq> None) (take k selected))) (ledger w)"
      by (elim exE conjE) (rule that; assumption)
    have ne: "newEvents w w' = downEvents lookup (take k selected)
                     @ (if r = None then [] else [RunDown (selected ! k)])"
      using h(3) by (rule newEvents_append)
    have ex: "\<exists>k. k \<le> length selected
               \<and> newEvents w w' = downEvents lookup (take k selected)
                                    @ (if r = None then [] else [RunDown (selected ! k)])
               \<and> (r = None \<longrightarrow> k = length selected)
               \<and> (r \<noteq> None \<longrightarrow> k < length selected \<and> lookup (selected ! k) \<noteq> None)
               \<and> ledger w' =
                   filter (\<lambda>x. x \<notin> set (filter (\<lambda>n. lookup n \<noteq> None) (take k selected)))
                     (ledger w)"
      using h(2,4,5,6) ne by (intro exI[of _ k] conjI)
    from s h(1) ex show ?thesis by (intro conjI)
  qed
qed

theorem C5_witness:
  "(0::int) < 2
   \<and> migrateDown 2 (Inr [''A.ts'', ''B.ts'', ''C.ts'']) requireRecording recordingWorld =
      (None, \<lparr>ledger = [''A''], userdb = [''C'', ''B''],
              events = [RunDown ''C'', DeleteRow ''C'', RunDown ''B'', DeleteRow ''B'']\<rparr>)
   \<and> migrationsToRollback (getRanMigrations recordingWorld) 2 = [''C'', ''B'']
   \<and> (None, [''C'', ''B'']) =
       runAll (downsOf (availableMigrationsMap (loadEach requireRecording
                 (sort (filter (\<lambda>file. endsWith file ''.ts'' \<or> endsWith file ''.js'')
                    [''A.ts'', ''B.ts'', ''C.ts''])))) [''C'', ''B'']) []
   \<and> migrateDown 2 (Inr [''A.ts'', ''B.ts'', ''C.ts'']) requireRejectingDownB recordingWorld =
      (Some (DriverError ''failed''),
       \<lparr>ledger = [''A'', ''B''], userdb = [''C''],
        events = [RunDown ''C'', DeleteRow ''C'', RunDown ''B'']\<rparr>)
   \<and> (Some (DriverError ''failed''), [''C'']) =
       runAll (downsOf (availableMigrationsMap (loadEach requireRejectingDownB
                 (sort (filter (\<lambda>file. endsWith file ''.ts'' \<or> endsWith file ''.js'')
                    [''A.ts'', ''B.ts'', ''C.ts''])))) [''C'', ''B'']) []"
proof -
  have pos: "(0::int) < 2" by simp
  have run: "migrateDown 2 (Inr [''A.ts'', ''B.ts'', ''C.ts'']) requireRecording recordingWorld =
      (None, \<lparr>ledger = [''A''], userdb = [''C'', ''B''],
              events = [RunDown ''C'', DeleteRow ''C'', RunDown ''B'', DeleteRow ''B'']\<rparr>)"
    by (simp add: migrateDown_def loadMigrations_def endsWith_def ensureMigrationsTable_def
        getRanMigrations_def requireRecording_def parseName_def logEvent_def recordsDown_def
        deleteLedgerRow_def recordingWorld_def migrationsToRollback_def slice0_def
        availableMigrationsMap_def)
  have run2: "migrateDown 2 (Inr [''A.ts'', ''B.ts'', ''C.ts'']) requireRejectingDownB recordingWorld =
      (Some (DriverError ''failed''),
       \<lparr>ledger = [''A'', ''B''], userdb = [''C''],
        events = [RunDown ''C'', DeleteRow ''C'', RunDown ''B'']\<rparr>)"
    by (simp add: migrateDown_def loadMigrations_def endsWith_def ensureMigrationsTable_def
        getRanMigrations_def requireRejectingDownB_def parseName_def logEvent_def recordsDown_def
        rejectsDown_def deleteLedgerRow_def recordingWorld_def migrationsToRollback_def slice0_def
        availableMigrationsMap_def)
  have sel: "[''C'', ''B''] =
      rev (drop (length (sort (ledger recordingWorld)) - nat 2) (sort (ledger recordingWorld)))"
    by (simp add: recordingWorld_def)
  note c5 = C5_migrateDown_rolls_back_last_steps_most_recent_first[OF pos run sel refl]
  note c5r = C5_migrateDown_rolls_back_last_steps_most_recent_first[OF pos run2 sel refl]
  from c5 have a: "migrationsToRollback (getRanMigrations recordingWorld) 2 = [''C'', ''B'']"
    by (rule conjunct1)
  from c5[THEN conjunct2, THEN conjunct1] have b: "(None, [''C'', ''B'']) =
       runAll (downsOf (availableMigrationsMap (loadEach requireRecording
                 (sort (filter (\<lambda>file. endsWith file ''.ts'' \<or> endsWith file ''.js'')
                    [''A.ts'', ''B.ts'', ''C.ts''])))) [''C'', ''B'']) []"
    by (simp add: recordingWorld_def)
  from c5r[THEN conjunct2, THEN conjunct1] have c: "(Some (DriverError ''failed''), [''C'']) =
       runAll (downsOf (availableMigrationsMap (loadEach requireRejectingDownB
                 (sort (filter (\<lambda>file. endsWith file ''.ts'' \<or> endsWith file ''.js'')
                    [''A.ts'', ''B.ts'', ''C.ts''])))) [''C'', ''B'']) []"
    by (simp add: recordingWorld_def)
  from pos run a b run2 c show ?thesis by (intro conjI)
qed

text \<open>
  C6. A selected ledger entry whose name has no definition among the loaded migrations
  is skipped: the loop goes on with the remaining entries after logging the warning
  only, and in the whole call no \<open>down\<close> is run and no \<open>DELETE\<close> is issued for that
  name, its ledger row stays as it was, and a call that returns has warned about it.
\<close>

theorem C6_missing_definition_is_skipped:
  "(lookup n = None \<longrightarrow>
      downLoop lookup (n # rest) w0 = downLoop lookup rest (logEvent (WarnMissing n) w0)
      \<and> ledger (logEvent (WarnMissing n) w0) = ledger w0
      \<and> userdb (logEvent (WarnMissing n) w0) = userdb w0)
   \<and> (migrateDown steps (Inr files) require w = (r, w')
      \<and> n \<in> set (migrationsToRollback (getRanMigrations w) steps)
      \<and> n \<notin> set (map name (loadEach require
            (sort (filter (\<lambda>file. endsWith file ''.ts'' \<or> endsWith file ''.js'') files)))) \<longrightarrow>
      RunDown n \<notin> set (newEvents w w')
      \<and> DeleteRow n \<notin> set (newEvents w w')
      \<and> filter (\<lambda>x. x = n) (ledger w') = filter (\<lambda>x. x = n) (ledger w)
      \<and> (r = None \<longrightarrow> WarnMissing n \<in> set (newEvents w w')))"
proof (intro conjI impI)
  assume "lookup n = None"
  then show "downLoop lookup (n # rest) w0 = downLoop lookup rest (logEvent (WarnMissing n) w0)"
    by simp
  show "ledger (logEvent (WarnMissing n) w0) = ledger w0" by (simp add: logEvent_def)
  show "userdb (logEvent (WarnMissing n) w0) = userdb w0" by (simp add: logEvent_def)
next
  assume a: "migrateDown steps (Inr files) require w = (r, w')
      \<and> n \<in> set (migrationsToRollback (getRanMigrations w) steps)
      \<and> n \<notin> set (map name (loadEach require
            (sort (filter (\<lambda>file. endsWith file ''.ts'' \<or> endsWith file ''.js'') files))))"
  let ?sel = "migrationsToRollback (getRanMigrations w) steps"
  from a migrateDown_spec[OF _ refl refl, of steps files require w r w'] obtain k where h:
    "k \<le> length ?sel" "attempted (newEvents w w') = take k ?sel"
    "r = None \<longrightarrow> k = length ?sel"
    "ledger w' = filter (\<lambda>x. x \<notin> set (deletedRows (newEvents w w'))) (ledger w)"
    "\<forall>n. RunDown n \<in> set (newEvents w w') \<or> DeleteRow n \<in> set (newEvents w w')
         \<longrightarrow> n \<in> set (map name (loadEach require
            (sort (filter (\<lambda>file. endsWith file ''.ts'' \<or> endsWith file ''.js'') files))))"
    by blast
  show nd: "RunDown n \<notin> set (newEvents w w')" using a h(5) by blast
  show dd: "DeleteRow n \<notin> set (newEvents w w')" using a h(5) by blast
  have "n \<notin> set (deletedRows (newEvents w w'))"
    using dd by (induction "newEvents w w'") (auto simp: deletedRows_def split: event.splits)
  then show "filter (\<lambda>x. x = n) (ledger w') = filter (\<lambda>x. x = n) (ledger w)"
    unfolding h(4) by (auto intro: filter_cong)
  show "WarnMissing n \<in> set (newEvents w w')" if "r = None"
  proof -
    from that h(2,3) have "attempted (newEvents w w') = ?sel" by simp
    with a have "n \<in> set (attempted (newEvents w w'))" by simp
    with nd show ?thesis by (simp add: set_attempted)
  qed
qed

theorem C6_witness:
  "availableMigrationsMap
      [\<lparr>name = ''A'', up = resolves, down = resolves\<rparr>,
       \<lparr>name = ''C'', up = resolves, down = resolves\<rparr>] ''B'' = None
   \<and> downLoop (availableMigrationsMap
         [\<lparr>name = ''A'', up = resolves, down = resolves\<rparr>,
          \<lparr>name = ''C'', up = resolves, down = resolves\<rparr>]) (''B'' # [''A''])
        (emptyWorld\<lparr>ledger := [''A'', ''B'']\<rparr>) =
      (None, \<lparr>ledger = [''B''], userdb = (),
              events = [WarnMissing ''B'', RunDown ''A'', DeleteRow ''A'']\<rparr>)
   \<and> migrateDown 3 (Inr [''A.ts'', ''C.ts'']) requireResolving
        (emptyWorld\<lparr>ledger := [''A'', ''B'', ''C'']\<rparr>) =
      (None, \<lparr>ledger = [''B''], userdb = (),
              events = [RunDown ''C'', DeleteRow ''C'', WarnMissing ''B'',
                        RunDown ''A'', DeleteRow ''A'']\<rparr>)
   \<and> ''B'' \<in> set (migrationsToRollback
                      (getRanMigrations (emptyWorld\<lparr>ledger := [''A'', ''B'', ''C'']\<rparr>)) 3)
   \<and> ''B'' \<notin> set (map name (loadEach requireResolving
          (sort (filter (\<lambda>file. endsWith file ''.ts'' \<or> endsWith file ''.js'')
                   [''A.ts'', ''C.ts'']))))
   \<and> RunDown ''B'' \<notin> set [RunDown ''C'', DeleteRow ''C'', WarnMissing ''B'',
                             RunDown ''A'', DeleteRow ''A'']
   \<and> DeleteRow ''B'' \<notin> set [RunDown ''C'', DeleteRow ''C'', WarnMissing ''B'',
                               RunDown ''A'', DeleteRow ''A'']"
proof -
  have none: "availableMigrationsMap
      [\<lparr>name = ''A'', up = resolves, down = resolves\<rparr>,
       \<lparr>name = ''C'', up = resolves, down = resolves\<rparr>] ''B'' = None"
    by (simp add: availableMigrationsMap_def)
  have loop: "downLoop (availableMigrationsMap
         [\<lparr>name = ''A'', up = resolves, down = resolves\<rparr>,
          \<lparr>name = ''C'', up = resolves, down = resolves\<rparr>]) [''A'']
        (logEvent (WarnMissing ''B'') (emptyWorld\<lparr>ledger := [''A'', ''B'']\<rparr>)) =
      (None, \<lparr>ledger = [''B''], userdb = (),
              events = [WarnMissing ''B'', RunDown ''A'', DeleteRow ''A'']\<rparr>)"
    by (simp add: availableMigrationsMap_def logEvent_def resolves_def deleteLedgerRow_def
        emptyWorld_def)
  have run: "migrateDown 3 (Inr [''A.ts'', ''C.ts'']) requireResolving
        (emptyWorld\<lparr>ledger := [''A'', ''B'', ''C'']\<rparr>) =
      (None, \<lparr>ledger = [''B''], userdb = (),
              events = [RunDown ''C'', DeleteRow ''C'', WarnMissing ''B'',
                        RunDown ''A'', DeleteRow ''A'']\<rparr>)"
    by (simp add: migrateDown_def loadMigrations_def endsWith_def ensureMigrationsTable_def
        getRanMigrations_def requireResolving_def parseName_def logEvent_def resolves_def
        deleteLedgerRow_def emptyWorld_def migrationsToRollback_def slice0_def
        availableMigrationsMap_def)
  have sel: "''B'' \<in> set (migrationsToRollback
                      (getRanMigrations (emptyWorld\<lparr>ledger := [''A'', ''B'', ''C'']\<rparr>)) 3)"
    by (simp add: migrationsToRollback_def slice0_def getRanMigrations_def emptyWorld_def)
  have missing: "''B'' \<notin> set (map name (loadEach requireResolving
          (sort (filter (\<lambda>file. endsWith file ''.ts'' \<or> endsWith file ''.js'')
                   [''A.ts'', ''C.ts'']))))"
    by (simp add: endsWith_def requireResolving_def parseName_def)
  note c6 = C6_missing_definition_is_skipped
      [where lookup = "availableMigrationsMap
         [\<lparr>name = ''A'', up = resolves, down = resolves\<rparr>,
          \<lparr>name = ''C'', up = resolves, down = resolves\<rparr>]"
         and n = "''B''" and rest = "[''A'']" and ?w0.0 = "emptyWorld\<lparr>ledger := [''A'', ''B'']\<rparr>"
         and steps = 3 and files = "[''A.ts'', ''C.ts'']" and require = requireResolving
         and w = "emptyWorld\<lparr>ledger := [''A'', ''B'', ''C'']\<rparr>" and r = None
         and w' = "\<lparr>ledger = [''B''], userdb = (),
              events = [RunDown ''C'', DeleteRow ''C'', WarnMissing ''B'',
                        RunDown ''A'', DeleteRow ''A'']\<rparr>"]
  from c6 none have step: "downLoop (availableMigrationsMap
         [\<lparr>name = ''A'', up = resolves, down = resolves\<rparr>,
          \<lparr>name = ''C'', up = resolves, down = resolves\<rparr>]) (''B'' # [''A''])
        (emptyWorld\<lparr>ledger := [''A'', ''B'']\<rparr>) =
       downLoop (availableMigrationsMap
         [\<lparr>name = ''A'', up = resolves, down = resolves\<rparr>,
          \<lparr>name = ''C'', up = resolves, down = resolves\<rparr>]) [''A'']
        (logEvent (WarnMissing ''B'') (emptyWorld\<lparr>ledger := [''A'', ''B'']\<rparr>))"
    by blast
  from c6 run sel missing have ev:
    "RunDown ''B'' \<notin> set (newEvents (emptyWorld\<lparr>ledger := [''A'', ''B'', ''C'']\<rparr>)
        \<lparr>ledger = [''B''], userdb = (),
              events = [RunDown ''C'', DeleteRow ''C'', WarnMissing ''B'',
                        RunDown ''A'', DeleteRow ''A'']\<rparr>)
     \<and> DeleteRow ''B'' \<notin> set (newEvents (emptyWorld\<lparr>ledger := [''A'', ''B'', ''C'']\<rparr>)
        \<lparr>ledger = [''B''], userdb = (),
              events = [RunDown ''C'', DeleteRow ''C'', WarnMissing ''B'',
                        RunDown ''A'', DeleteRow ''A'']\<rparr>)"
    by blast
  have ne: "newEvents (emptyWorld\<lparr>ledger := [''A'', ''B'', ''C'']\<rparr>)
        \<lparr>ledger = [''B''], userdb = (),
              events = [RunDown ''C'', DeleteRow ''C'', WarnMissing ''B'',
                        RunDown ''A'', DeleteRow ''A'']\<rparr> =
        [RunDown ''C'', DeleteRow ''C'', WarnMissing ''B'', RunDown ''A'', DeleteRow ''A'']"
    by (simp add: newEvents_def emptyWorld_def)
  from none step loop run sel missing ev[unfolded ne] show ?thesis
    by (simp only: simp_thms)
qed

section \<open>Connection: checkout and release\<close>

text \<open>
  C9. On a pool-backed connection every call of \<open>query\<close> releases exactly the handles
  it checked out, at most one: after a successful checkout the driver sees the
  checkout, the statement and one release, whether the statement resolves or raises;
  a failed checkout leaves nothing to release. A transaction-bound connection runs the
  statement on the wrapped handle with no checkout and no release, and its
  \<open>releaseConnection\<close> does nothing.
\<close>

theorem C9_query_releases_each_checkout_once:
  "(\<not> isTransactionConnection this \<longrightarrow>
      releases (snd (query this drv sql params)) = checkouts (snd (query this drv sql params))
      \<and> length (checkouts (snd (query this drv sql params))) \<le> 1
      \<and> (pool this \<noteq> None \<and> getConnection drv = Inr h \<longrightarrow>
           query this drv sql params =
             (execute drv h sql params, [CheckedOut h, Executed h sql params, Released h])))
   \<and> query (newConnection (Config cfg)) (drv\<lparr>getConnection := Inr h\<rparr>) sql params =
        (execute drv h sql params, [CheckedOut h, Executed h sql params, Released h])
   \<and> query (newConnection (Handle h)) drv sql params =
        (execute drv h sql params, [Executed h sql params])
   \<and> (isTransactionConnection this \<longrightarrow>
        releaseConnection this connection = []
        \<and> releases (snd (query this drv sql params)) = [])"
  by (auto simp: query_def getActiveConnection_def releaseConnection_def releases_def
        checkouts_def newConnection_def split: sum.splits option.splits)

theorem C9_witness:
  "\<not> isTransactionConnection (newConnection (Config []))
   \<and> pool (newConnection (Config [])) \<noteq> None
   \<and> query (newConnection (Config []))
        \<lparr>getConnection = Inr 7, execute = (\<lambda>h s p. Inl (DriverError ''syntax'') :: error + unit)\<rparr>
        ''SELECT 1'' [] =
      (Inl (DriverError ''syntax''),
       [CheckedOut 7, Executed 7 ''SELECT 1'' [], Released 7])
   \<and> isTransactionConnection (newConnection (Handle 3))
   \<and> query (newConnection (Handle 3))
        \<lparr>getConnection = Inr 7, execute = (\<lambda>h s p. Inr ())\<rparr> ''SELECT 1'' [] =
      (Inr (), [Executed 3 ''SELECT 1'' []])
   \<and> releaseConnection (newConnection (Handle 3)) (Some 3) = []"
  using C9_query_releases_each_checkout_once
          [where this = "newConnection (Config [])"
             and drv = "\<lparr>getConnection = Inr 7, execute = (\<lambda>h s p. Inl (DriverError ''syntax'') :: error + unit)\<rparr>"
             and h = 7 and sql = "''SELECT 1''" and params = "[]" and cfg = "[]" and connection = None]
        C9_query_releases_each_checkout_once
          [where this = "newConnection (Handle 3)"
             and drv = "\<lparr>getConnection = Inr 7, execute = (\<lambda>h s p. Inr ())\<rparr>"
             and h = 3 and sql = "''SELECT 1''" and params = "[]" and cfg = "[]"
             and connection = "Some 3"]
  by (simp add: newConnection_def)

section \<open>Helper lemmas: \<open>create\<close>\<close>



section \<open>Model: \<open>create\<close>\<close>




end
